theory Spec2Isabelle
  imports Complex_Main "HOL-Library.Word"
begin

unbundle bit_operations_syntax

section \<open>Data model\<close>

text \<open>
  The Go struct \<open>Filter\<close>: \<open>bits []atomic.Uint64\<close>, \<open>keys []uint64\<close>, \<open>m uint64\<close>,
  \<open>n atomic.Uint64\<close>. The field \<open>lock sync.RWMutex\<close> is not a field of the record:
  every acquisition and release of it is written to the lock log of the store below.
\<close>

type_synonym u64 = "64 word"

record Filter =
  bits :: "u64 list"
  keys :: "u64 list"
  m :: u64
  n :: u64

text \<open>
  Errors returned by the package (errors.go) and the run-time panics of Go that the
  operations can raise: an index out of range, an integer division by zero and a
  nil pointer dereference. \<open>ErrIncompatible\<close> carries the slice \<open>s\<close> of the struct
  \<open>errIncompatible\<close>.
\<close>

datatype error =
    ErrHash
  | ErrK
  | ErrM
  | ErrUniqueKeys
  | ErrIncompatible "string list"
  | PanicIndexOutOfRange
  | PanicDivideByZero
  | PanicNilDereference

text \<open>
  Filters are handled through pointers (\<open>*Filter\<close>), and two arguments of one call may
  be the same pointer. The store holds the filter objects; a pointer is an index into
  \<open>heap\<close>, an index outside of it is a nil pointer. \<open>locklog\<close> records the calls on the
  filters' \<open>sync.RWMutex\<close> in the order in which they are made.
\<close>

datatype lock_event = RLock nat | RUnlock nat | Lock nat | Unlock nat

record store =
  heap :: "Filter list"
  locklog :: "lock_event list"

definition emit :: "lock_event \<Rightarrow> store \<Rightarrow> store" where
  "emit e s = s\<lparr>locklog := locklog s @ [e]\<rparr>"

definition put :: "nat \<Rightarrow> Filter \<Rightarrow> store \<Rightarrow> store" where
  "put a f s = s\<lparr>heap := (heap s)[a := f]\<rparr>"

section \<open>errors.go\<close>

text \<open>\<open>strings.Join(elems, sep)\<close>.\<close>

fun Join :: "string list \<Rightarrow> string \<Rightarrow> string" where
  "Join [] sep = []"
| "Join [x] sep = x"
| "Join (x # y # ys) sep = x @ sep @ Join (y # ys) sep"

text \<open>\<open>(e *errIncompatible) Error()\<close>: the non-empty entries of \<open>e.s\<close>, joined.\<close>

definition Error :: "string list \<Rightarrow> string" where
  "Error s =
     ''Cannot perform union on two incompatible Bloom filters: ''
       @ Join (filter (\<lambda>i. i \<noteq> []) s) '', ''"

definition errIncompatibleBloomFilters :: "string list \<Rightarrow> error" where
  "errIncompatibleBloomFilters s = ErrIncompatible s"

text \<open>The verb \<open>%d\<close> of \<open>fmt.Sprintf\<close> on an unsigned integer: its decimal digits.\<close>

definition digit :: "nat \<Rightarrow> char" where
  "digit d = char_of (48 + d)"

function fmt_d :: "nat \<Rightarrow> string" where
  "fmt_d x = (if x < 10 then [digit x] else fmt_d (x div 10) @ [digit (x mod 10)])"
  by pat_completeness auto
termination
  by (relation "measure id") auto

declare fmt_d.simps [simp del]

section \<open>The filter's accessors and its hashes\<close>

text \<open>
  \<open>K()\<close> is \<open>uint64(len(f.keys))\<close>. The length of a Go slice is an \<open>int\<close>, at least 0 and
  below \<open>2^63\<close>, so the conversion never wraps; \<open>K\<close> is the length itself.
\<close>

definition M :: "Filter \<Rightarrow> u64" where
  "M f = m f"

definition K :: "Filter \<Rightarrow> nat" where
  "K f = length (keys f)"

definition N :: "Filter \<Rightarrow> u64" where
  "N f = n f"

text \<open>
  \<open>hash(v)\<close>: \<open>rawHash\<close> is \<open>v.Sum64()\<close>, the 64-bit hash the caller supplies; entry \<open>i\<close> of
  the result is \<open>rawHash ^ f.keys[i]\<close>.
\<close>

definition hash :: "Filter \<Rightarrow> u64 \<Rightarrow> u64 list" where
  "hash f rawHash = map (\<lambda>key. rawHash XOR key) (keys f)"

section \<open>Compatibility\<close>

definition uint64ToBool :: "u64 \<Rightarrow> bool" where
  "uint64ToBool x = (x \<noteq> 0)"

text \<open>
  \<open>noBranchCompareUint64s\<close>: the loop ranges over \<open>b0\<close> and reads \<open>b1[i]\<close>, which panics
  when \<open>b1\<close> is shorter than \<open>b0\<close>.
\<close>

fun noBranchCompare_loop :: "u64 \<Rightarrow> nat \<Rightarrow> u64 list \<Rightarrow> u64 list \<Rightarrow> error + u64" where
  "noBranchCompare_loop r i [] b1 = Inr r"
| "noBranchCompare_loop r i (b0i # b0) b1 =
     (if i < length b1 then noBranchCompare_loop (r OR (b0i XOR b1 ! i)) (Suc i) b0 b1
      else Inl PanicIndexOutOfRange)"

definition noBranchCompareUint64s :: "u64 list \<Rightarrow> u64 list \<Rightarrow> error + u64" where
  "noBranchCompareUint64s b0 b1 = noBranchCompare_loop 0 0 b0 b1"

text \<open>\<open>isCompatible\<close>: \<open>&&\<close> evaluates its right operand only when the left one holds.\<close>

definition isCompatible :: "Filter \<Rightarrow> Filter \<Rightarrow> error + bool" where
  "isCompatible f f2 =
     (if M f = M f2 then
        if K f = K f2 then
          (case noBranchCompareUint64s (keys f) (keys f2) of
             Inl e \<Rightarrow> Inl e
           | Inr r \<Rightarrow> Inr (r = 0))
        else Inr False
      else Inr False)"

text \<open>
  \<open>f.lock.RLock(); defer f.lock.RUnlock()\<close> around a body: a nil receiver panics at the
  call of \<open>RLock\<close>; the deferred \<open>RUnlock\<close> runs when the body returns or panics.
\<close>

definition with_rlock ::
  "nat \<Rightarrow> (store \<Rightarrow> (error + 'a) \<times> store) \<Rightarrow> store \<Rightarrow> (error + 'a) \<times> store" where
  "with_rlock a body s =
     (if a < length (heap s) then
        (case body (emit (RLock a) s) of (r, s') \<Rightarrow> (r, emit (RUnlock a) s'))
      else (Inl PanicNilDereference, s))"

text \<open>The same with \<open>f.lock.Lock(); defer f.lock.Unlock()\<close>.\<close>

definition with_lock ::
  "nat \<Rightarrow> (store \<Rightarrow> (error + 'a) \<times> store) \<Rightarrow> store \<Rightarrow> (error + 'a) \<times> store" where
  "with_lock a body s =
     (if a < length (heap s) then
        (case body (emit (Lock a) s) of (r, s') \<Rightarrow> (r, emit (Unlock a) s'))
      else (Inl PanicNilDereference, s))"

text \<open>\<open>IsCompatible\<close>: both filters read-locked, then \<open>isCompatible\<close>.\<close>

definition IsCompatible :: "nat \<Rightarrow> nat \<Rightarrow> store \<Rightarrow> (error + bool) \<times> store" where
  "IsCompatible a b =
     with_rlock a (with_rlock b (\<lambda>s. (isCompatible (heap s ! a) (heap s ! b), s)))"

text \<open>
  \<open>verifyCompatible\<close>: \<open>Inr ()\<close> is the nil error. The first message is built from
  \<open>f.K()\<close> and \<open>f2.K()\<close>, as in the source. The third test calls
  \<open>noBranchCompareUint64s\<close> whatever the key counts are.
\<close>

definition verifyCompatible_body :: "Filter \<Rightarrow> Filter \<Rightarrow> error + unit" where
  "verifyCompatible_body f f2 =
     (case isCompatible f f2 of
        Inl p \<Rightarrow> Inl p
      | Inr True \<Rightarrow> Inr ()
      | Inr False \<Rightarrow>
          (let e0 = (if M f \<noteq> M f2
                     then ''M='' @ fmt_d (K f) @ '' and M='' @ fmt_d (K f2) else []);
               e1 = (if K f \<noteq> K f2
                     then ''K='' @ fmt_d (K f) @ '' and K='' @ fmt_d (K f2) else [])
           in case noBranchCompareUint64s (keys f) (keys f2) of
                Inl p \<Rightarrow> Inl p
              | Inr r \<Rightarrow>
                  Inl (errIncompatibleBloomFilters
                         [e0, e1, if r \<noteq> 0 then ''Mismatched Keys'' else []])))"

definition verifyCompatible :: "nat \<Rightarrow> nat \<Rightarrow> store \<Rightarrow> (error + unit) \<times> store" where
  "verifyCompatible a b =
     with_rlock a (with_rlock b (\<lambda>s. (verifyCompatible_body (heap s ! a) (heap s ! b), s)))"

section \<open>Add, AddC, Contains\<close>

text \<open>
  The body of the loop of \<open>Add\<close>: \<open>i %= f.m\<close> panics when \<open>f.m\<close> is 0,
  \<open>f.bits[i>>6]\<close> panics when the index is not below \<open>len(f.bits)\<close>, and
  \<open>Or(1 << uint(i&0x3f))\<close> stores the word with that bit set. A panic leaves the
  words written so far as they are.
\<close>

fun Add_loop :: "u64 \<Rightarrow> u64 list \<Rightarrow> u64 list \<Rightarrow> error option \<times> u64 list" where
  "Add_loop mm [] bs = (None, bs)"
| "Add_loop mm (i # h) bs =
     (if mm = 0 then (Some PanicDivideByZero, bs)
      else let i' = i mod mm in
        if unat (drop_bit 6 i') < length bs then
          Add_loop mm h
            (bs[unat (drop_bit 6 i') :=
                  bs ! unat (drop_bit 6 i') OR push_bit (unat (i' AND 0x3f)) 1])
        else (Some PanicIndexOutOfRange, bs))"

text \<open>\<open>Add\<close>: the hashes are computed before the lock is taken; \<open>f.n.Add(1)\<close> wraps.\<close>

definition Add :: "nat \<Rightarrow> u64 \<Rightarrow> store \<Rightarrow> (error + unit) \<times> store" where
  "Add a v s =
     (if a < length (heap s) then
        let h = hash (heap s ! a) v in
        with_rlock a
          (\<lambda>s. let f = heap s ! a in
             case Add_loop (m f) h (bits f) of
               (Some p, bs) \<Rightarrow> (Inl p, put a (f\<lparr>bits := bs\<rparr>) s)
             | (None, bs) \<Rightarrow> (Inr (), put a (f\<lparr>bits := bs, n := n f + 1\<rparr>) s)) s
      else (Inl PanicNilDereference, s))"

text \<open>
  The loop of \<open>AddC\<close>: the prior value of the bit is read and ANDed into \<open>r\<close>, then
  the bit is set.
\<close>

fun AddC_loop ::
  "u64 \<Rightarrow> u64 list \<Rightarrow> u64 \<Rightarrow> u64 list \<Rightarrow> error option \<times> u64 \<times> u64 list" where
  "AddC_loop mm [] r bs = (None, r, bs)"
| "AddC_loop mm (i # h) r bs =
     (if mm = 0 then (Some PanicDivideByZero, r, bs)
      else let i' = i mod mm in
        if unat (drop_bit 6 i') < length bs then
          AddC_loop mm h
            (r AND (drop_bit (unat (i' AND 0x3f)) (bs ! unat (drop_bit 6 i')) AND 1))
            (bs[unat (drop_bit 6 i') :=
                  bs ! unat (drop_bit 6 i') OR push_bit (unat (i' AND 0x3f)) 1])
        else (Some PanicIndexOutOfRange, r, bs))"

text \<open>
  \<open>AddC\<close>: the source calls \<open>f.lock.RLock()\<close> and then \<open>f.lock.RUnlock()\<close> at once
  (there is no \<open>defer\<close>), so the loop runs with the lock released.
\<close>

definition AddC :: "nat \<Rightarrow> u64 \<Rightarrow> store \<Rightarrow> (error + bool) \<times> store" where
  "AddC a v s =
     (if a < length (heap s) then
        let h = hash (heap s ! a) v;
            s1 = emit (RUnlock a) (emit (RLock a) s);
            f = heap s1 ! a
        in case AddC_loop (m f) h 1 (bits f) of
             (Some p, r, bs) \<Rightarrow> (Inl p, put a (f\<lparr>bits := bs\<rparr>) s1)
           | (None, r, bs) \<Rightarrow>
               (Inr (uint64ToBool r), put a (f\<lparr>bits := bs, n := n f + 1\<rparr>) s1)
      else (Inl PanicNilDereference, s))"

text \<open>The loop of \<open>Contains\<close> only reads.\<close>

fun Contains_loop :: "u64 \<Rightarrow> u64 list \<Rightarrow> u64 \<Rightarrow> u64 list \<Rightarrow> error + u64" where
  "Contains_loop mm [] r bs = Inr r"
| "Contains_loop mm (i # h) r bs =
     (if mm = 0 then Inl PanicDivideByZero
      else let i' = i mod mm in
        if unat (drop_bit 6 i') < length bs then
          Contains_loop mm h
            (r AND (drop_bit (unat (i' AND 0x3f)) (bs ! unat (drop_bit 6 i')) AND 1)) bs
        else Inl PanicIndexOutOfRange)"

definition Contains :: "nat \<Rightarrow> u64 \<Rightarrow> store \<Rightarrow> (error + bool) \<times> store" where
  "Contains a v s =
     (if a < length (heap s) then
        let h = hash (heap s ! a) v in
        with_rlock a
          (\<lambda>s. let f = heap s ! a in
             case Contains_loop (m f) h 1 (bits f) of
               Inl p \<Rightarrow> (Inl p, s)
             | Inr r \<Rightarrow> (Inr (uint64ToBool r), s)) s
      else (Inl PanicNilDereference, s))"

section \<open>Construction of a compatible filter\<close>

text \<open>
  Modelled from the spec: \<open>NewCompatible\<close> and the thresholds \<open>MMin\<close> and \<open>KMin\<close> (both
  named in errors.go) are not among the source files. The spec has \<open>NewCompatible\<close>
  clone the filter's \<open>(m, keys)\<close> with a zeroed bit vector of \<open>ceil(m/64)\<close> words and
  \<open>n = 0\<close>, and has every construction check the key count, the size and the
  uniqueness of the keys, failing with InvalidKeyCount, InvalidSize or DuplicateKeys.
  The thresholds are parameters. The new filter is a new object: it is appended to
  the heap and its index returned.
\<close>

definition NewCompatible :: "u64 \<Rightarrow> nat \<Rightarrow> nat \<Rightarrow> store \<Rightarrow> (error + nat) \<times> store" where
  "NewCompatible MMin KMin a s =
     (if a < length (heap s) then
        let f = heap s ! a in
        if length (keys f) < KMin then (Inl ErrK, s)
        else if m f < MMin then (Inl ErrM, s)
        else if \<not> distinct (keys f) then (Inl ErrUniqueKeys, s)
        else (Inr (length (heap s)),
              s\<lparr>heap := heap s @
                   [\<lparr>bits = replicate ((unat (m f) + 63) div 64) 0,
                     keys = keys f, m = m f, n = 0\<rparr>]\<rparr>)
      else (Inl PanicNilDereference, s))"

section \<open>Copy\<close>

definition getBits :: "Filter \<Rightarrow> u64 list" where
  "getBits f = map (\<lambda>v. v) (bits f)"

fun setBits_loop :: "nat \<Rightarrow> u64 list \<Rightarrow> u64 list \<Rightarrow> u64 list" where
  "setBits_loop i [] bs = bs"
| "setBits_loop i (v # b) bs = setBits_loop (Suc i) b (bs[i := v])"

text \<open>\<open>setBits\<close> ranges over \<open>b[0:min(len(b), len(f.bits))]\<close>.\<close>

definition setBits :: "Filter \<Rightarrow> u64 list \<Rightarrow> Filter" where
  "setBits f b =
     f\<lparr>bits := setBits_loop 0 (take (min (length b) (length (bits f))) b) (bits f)\<rparr>"

definition Copy :: "u64 \<Rightarrow> nat \<Rightarrow> nat \<Rightarrow> store \<Rightarrow> (error + nat) \<times> store" where
  "Copy MMin KMin a s =
     (case NewCompatible MMin KMin a s of
        (Inl e, s1) \<Rightarrow> (Inl e, s1)
      | (Inr out, s1) \<Rightarrow>
          with_lock a
            (\<lambda>s. let s2 = put out (setBits (heap s ! out) (getBits (heap s ! a))) s;
                     s3 = put out ((heap s2 ! out)\<lparr>n := n (heap s2 ! a)\<rparr>) s2
                 in (Inr out, s3)) s1)"

section \<open>UnionInPlace and Union\<close>

text \<open>
  The loop of \<open>UnionInPlace\<close> ranges over the indices of \<open>f2.bits\<close> (its length is
  read once, at the start); at index \<open>i\<close> it reads the word of \<open>f2\<close> from the store as
  it is then, and ORs it into \<open>f.bits[i]\<close>, which panics when \<open>f.bits\<close> is shorter.
\<close>

fun UnionInPlace_loop :: "nat \<Rightarrow> nat \<Rightarrow> nat list \<Rightarrow> store \<Rightarrow> error option \<times> store" where
  "UnionInPlace_loop a b [] s = (None, s)"
| "UnionInPlace_loop a b (i # is) s =
     (let f = heap s ! a; word = bits (heap s ! b) ! i in
      if i < length (bits f) then
        UnionInPlace_loop a b is (put a (f\<lparr>bits := (bits f)[i := bits f ! i OR word]\<rparr>) s)
      else (Some PanicIndexOutOfRange, s))"

definition UnionInPlace :: "nat \<Rightarrow> nat \<Rightarrow> store \<Rightarrow> (error + unit) \<times> store" where
  "UnionInPlace a b =
     with_rlock a (with_rlock b
       (\<lambda>s. case verifyCompatible a b s of
               (Inl e, s1) \<Rightarrow> (Inl e, s1)
             | (Inr _, s1) \<Rightarrow>
                 (case UnionInPlace_loop a b [0..<length (bits (heap s1 ! b))] s1 of
                    (Some p, s2) \<Rightarrow> (Inl p, s2)
                  | (None, s2) \<Rightarrow> (Inr (), s2))))"

text \<open>
  The loop of \<open>Union\<close>: \<open>out.bits[i].Store(f.bits[i].Load() | word.Load())\<close> for every
  index of \<open>f2.bits\<close>.
\<close>

fun Union_loop :: "nat \<Rightarrow> nat \<Rightarrow> nat \<Rightarrow> nat list \<Rightarrow> store \<Rightarrow> error option \<times> store" where
  "Union_loop a b out [] s = (None, s)"
| "Union_loop a b out (i # is) s =
     (let f = heap s ! a; g = heap s ! out; word = bits (heap s ! b) ! i in
      if i < length (bits f) \<and> i < length (bits g) then
        Union_loop a b out is (put out (g\<lparr>bits := (bits g)[i := bits f ! i OR word]\<rparr>) s)
      else (Some PanicIndexOutOfRange, s))"

definition UnionF :: "u64 \<Rightarrow> nat \<Rightarrow> nat \<Rightarrow> nat \<Rightarrow> store \<Rightarrow> (error + nat) \<times> store" where
  "UnionF MMin KMin a b =
     with_rlock a (with_rlock b
       (\<lambda>s. case verifyCompatible a b s of
               (Inl e, s1) \<Rightarrow> (Inl e, s1)
             | (Inr _, s1) \<Rightarrow>
                 (case NewCompatible MMin KMin a s1 of
                    (Inl e, s2) \<Rightarrow> (Inl e, s2)
                  | (Inr out, s2) \<Rightarrow>
                      (case Union_loop a b out [0..<length (bits (heap s2 ! b))] s2 of
                         (Some p, s3) \<Rightarrow> (Inl p, s3)
                       | (None, s3) \<Rightarrow> (Inr out, s3)))))"

section \<open>statistics.go\<close>

text \<open>
  \<open>FalsePosititveProbability\<close> with \<open>float64\<close> read as the real numbers (no rounding):
  \<open>math.Pow(1.0-math.Exp(-k)*(n+0.5)/(m-1), k)\<close>. The exponent \<open>k\<close> is a key count, a
  natural number, so \<open>math.Pow\<close> is the power with a natural exponent.
\<close>

definition FalsePosititveProbability :: "Filter \<Rightarrow> real" where
  "FalsePosititveProbability f =
     (let k' = real (K f); n' = real (unat (N f)); m' = real (unat (M f))
      in (1 - exp (- k') * (n' + 0.5) / (m' - 1)) ^ K f)"

text \<open>
  The formula in the words of the spec (and of the comment above the function):
  \<open>(1 - exp(-k*(n+0.5)/(m-1))) ** k\<close>.
\<close>

definition FalsePositiveProbability_spec :: "nat \<Rightarrow> nat \<Rightarrow> nat \<Rightarrow> real" where
  "FalsePositiveProbability_spec k' n' m' =
     (1 - exp (- real k' * (real n' + 0.5) / (real m' - 1))) ^ k'"

section \<open>Sequences of calls\<close>

datatype call =
    CallAdd nat u64
  | CallAddC nat u64
  | CallContains nat u64
  | CallIsCompatible nat nat
  | CallCopy nat
  | CallUnionInPlace nat nat
  | CallUnion nat nat

text \<open>The store after one call, whatever the call returns.\<close>

fun exec :: "u64 \<Rightarrow> nat \<Rightarrow> call \<Rightarrow> store \<Rightarrow> store" where
  "exec MMin KMin (CallAdd a v) s = snd (Add a v s)"
| "exec MMin KMin (CallAddC a v) s = snd (AddC a v s)"
| "exec MMin KMin (CallContains a v) s = snd (Contains a v s)"
| "exec MMin KMin (CallIsCompatible a b) s = snd (IsCompatible a b s)"
| "exec MMin KMin (CallCopy a) s = snd (Copy MMin KMin a s)"
| "exec MMin KMin (CallUnionInPlace a b) s = snd (UnionInPlace a b s)"
| "exec MMin KMin (CallUnion a b) s = snd (UnionF MMin KMin a b s)"

fun run :: "u64 \<Rightarrow> nat \<Rightarrow> call list \<Rightarrow> store \<Rightarrow> store" where
  "run MMin KMin [] s = s"
| "run MMin KMin (c # cs) s = run MMin KMin cs (exec MMin KMin c s)"

section \<open>Notions used to state the properties\<close>

text \<open>
  The bit vector read as one sequence of bits: bit \<open>j\<close> is bit \<open>j mod 64\<close> of word
  \<open>j div 64\<close>, and is not set when that word does not exist.
\<close>

definition bit_at :: "u64 list \<Rightarrow> nat \<Rightarrow> bool" where
  "bit_at bs j = (j div 64 < length bs \<and> bit (bs ! (j div 64)) (j mod 64))"

text \<open>The \<open>k\<close> bit indices of a hash: \<open>(v XOR key) mod m\<close> for every key, in order.\<close>

definition targets :: "Filter \<Rightarrow> u64 \<Rightarrow> nat list" where
  "targets f v = map (\<lambda>key. unat ((v XOR key) mod m f)) (keys f)"

text \<open>The construction invariants: \<open>m \<ge> 1\<close> and \<open>len(bits) = ceil(m/64)\<close>.\<close>

definition sized :: "Filter \<Rightarrow> bool" where
  "sized f = (m f \<noteq> 0 \<and> length (bits f) = (unat (m f) + 63) div 64)"

text \<open>
  Every word of \<open>bs'\<close> has all the bits of the word of \<open>bs\<close> at the same position
  (and the two arrays have the same length).
\<close>

definition bits_kept :: "u64 list \<Rightarrow> u64 list \<Rightarrow> bool" where
  "bits_kept bs bs' = list_all2 (\<lambda>w w'. w AND w' = w) bs bs'"

text \<open>A later state of a filter: same \<open>m\<close>, same keys, no bit cleared.\<close>

definition filter_ext :: "Filter \<Rightarrow> Filter \<Rightarrow> bool" where
  "filter_ext f f' = (m f' = m f \<and> keys f' = keys f \<and> bits_kept (bits f) (bits f'))"

text \<open>A later state of the heap: no filter is lost, each is in a later state.\<close>

definition heap_ext :: "Filter list \<Rightarrow> Filter list \<Rightarrow> bool" where
  "heap_ext h h' = (length h \<le> length h' \<and> list_all2 filter_ext h (take (length h) h'))"

text \<open>
  No bit of any filter of the store is cleared between \<open>s\<close> and \<open>s'\<close>, and no filter
  is added or removed.
\<close>

definition no_bit_cleared :: "store \<Rightarrow> store \<Rightarrow> bool" where
  "no_bit_cleared s s' = list_all2 (\<lambda>f f'. bits_kept (bits f) (bits f')) (heap s) (heap s')"

text \<open>
  The invariants of the data model that a construction checks: at least \<open>KMin\<close> keys,
  \<open>m\<close> at least \<open>MMin\<close>, keys pairwise unique. With them \<open>NewCompatible\<close> does not fail.
\<close>

definition constructible :: "u64 \<Rightarrow> nat \<Rightarrow> Filter \<Rightarrow> bool" where
  "constructible MMin KMin f = (KMin \<le> length (keys f) \<and> MMin \<le> m f \<and> distinct (keys f))"

text \<open>The lock events that a call has added to the log.\<close>

definition new_events :: "store \<Rightarrow> store \<Rightarrow> lock_event list" where
  "new_events s s' = drop (length (locklog s)) (locklog s')"

text \<open>
  A store with two compatible filters of 64 bits and one key, used to instantiate
  the theorems: the first is empty, the second has bit 5 set and \<open>n = 3\<close>.
\<close>

definition store0 :: store where
  "store0 = \<lparr>heap = [\<lparr>bits = [0], keys = [1], m = 64, n = 0\<rparr>,
                      \<lparr>bits = [32], keys = [1], m = 64, n = 3\<rparr>],
             locklog = []\<rparr>"

text \<open>
  A store with two incompatible filters: the first has two keys, the second one.
\<close>

definition store1 :: store where
  "store1 = \<lparr>heap = [\<lparr>bits = [0], keys = [1, 2], m = 64, n = 0\<rparr>,
                      \<lparr>bits = [0], keys = [1], m = 64, n = 0\<rparr>],
             locklog = []\<rparr>"

section \<open>Words and bits\<close>

lemma unat_and_3f: "unat ((i::u64) AND 0x3f) = unat i mod 64"
proof -
  have "(0x3f::u64) = mask 6" by (simp add: mask_eq_exp_minus_1)
  then have "i AND 0x3f = take_bit 6 i" by (simp add: take_bit_eq_mask)
  then have "unat (i AND 0x3f) = take_bit 6 (unat i)"
    by (simp only: unsigned_take_bit_eq)
  also have "\<dots> = unat i mod 2 ^ 6" by (rule take_bit_eq_mod)
  finally show ?thesis by simp
qed

lemma unat_shr6: "unat (drop_bit 6 (i::u64)) = unat i div 64"
proof -
  have "unat (drop_bit 6 i) = drop_bit 6 (unat i)" by (rule unat_drop_bit_eq)
  also have "\<dots> = unat i div 2 ^ 6" by (rule drop_bit_eq_div)
  finally show ?thesis by simp
qed

lemma unat_mod_lt: "(mm::u64) \<noteq> 0 \<Longrightarrow> unat (i mod mm) < unat mm"
  by (simp add: unat_mod_distrib unat_gt_0)

lemma index_in_bounds:
  "(mm::u64) \<noteq> 0 \<Longrightarrow> length (bs::u64 list) = (unat mm + 63) div 64
    \<Longrightarrow> unat (drop_bit 6 (i mod mm)) < length bs"
  using unat_mod_lt [of mm i] unat_shr6 [of "i mod mm"] by arith

lemma getbit: "(drop_bit k (w::u64) AND 1) = (if bit w k then 1 else 0)"
  using bit_iff_and_drop_bit_eq_1 [of w k]
  by (auto simp add: and_one_eq) 

lemma setbit: "k < 64 \<Longrightarrow> bit ((w::u64) OR push_bit k 1) j \<longleftrightarrow> bit w j \<or> j = k"
  by (auto simp add: bit_or_iff bit_exp_iff)

lemma kept_or: "(w::u64) AND (w OR x) = w"
  by (auto simp add: bit_eq_iff bit_and_iff bit_or_iff) 


lemma bit_at_update:
  assumes "t div 64 < length bs"
  shows "bit_at (bs[t div 64 := bs ! (t div 64) OR push_bit (t mod 64) 1]) j
         \<longleftrightarrow> bit_at bs j \<or> j = t"
proof (cases "j div 64 = t div 64")
  case True
  have "j = t \<longleftrightarrow> j mod 64 = t mod 64"
    using True by (metis div_mult_mod_eq)
  then show ?thesis
    using True assms setbit [of "t mod 64" "bs ! (t div 64)" "j mod 64"]
    by (simp add: bit_at_def)
next
  case False
  then have "j \<noteq> t" by auto
  then show ?thesis
    using False by (simp add: bit_at_def)
qed

lemma Add_loop_ok:
  assumes "mm \<noteq> 0" and "length bs = (unat mm + 63) div 64"
  shows "\<exists>bs'. Add_loop mm h bs = (None, bs') \<and> length bs' = length bs
           \<and> (\<forall>j. bit_at bs' j \<longleftrightarrow> bit_at bs j \<or> j \<in> (\<lambda>i. unat (i mod mm)) ` set h)"
  using assms
proof (induction h arbitrary: bs)
  case Nil
  then show ?case by simp
next
  case (Cons i h)
  let ?t = "unat (i mod mm)"
  let ?bs1 = "bs[?t div 64 := bs ! (?t div 64) OR push_bit (?t mod 64) 1]"
  have inb: "?t div 64 < length bs"
    using index_in_bounds [OF Cons.prems, of i] by (simp only: unat_shr6)
  have step: "Add_loop mm (i # h) bs = Add_loop mm h ?bs1"
    using Cons.prems(1) inb by (simp only: Add_loop.simps Let_def unat_shr6 unat_and_3f if_False if_True)
  have len1: "length ?bs1 = (unat mm + 63) div 64"
    using Cons.prems(2) by simp
  from Cons.IH [OF Cons.prems(1) len1] obtain bs' where
    r: "Add_loop mm h ?bs1 = (None, bs')" and l: "length bs' = length ?bs1"
    and b: "\<forall>j. bit_at bs' j \<longleftrightarrow> bit_at ?bs1 j \<or> j \<in> (\<lambda>i. unat (i mod mm)) ` set h"
    by blast
  show ?case
    using step r l b bit_at_update [OF inb] by auto
qed


lemma getbit_at:
  "t div 64 < length bs \<Longrightarrow>
   drop_bit (t mod 64) (bs ! (t div 64)) AND 1 = (if bit_at bs t then 1 else 0)"
  by (simp only: getbit bit_at_def simp_thms)

lemma and_flag:
  "(r::u64) = 0 \<or> r = 1 \<Longrightarrow>
   r AND (if c then 1 else 0) = (if r = 1 \<and> c then 1 else 0)"
  by auto

lemma Contains_loop_ok:
  assumes "mm \<noteq> 0" and "length bs = (unat mm + 63) div 64" and "r = 0 \<or> r = 1"
  shows "Contains_loop mm h r bs
         = Inr (if r = 1 \<and> (\<forall>i\<in>set h. bit_at bs (unat (i mod mm))) then 1 else 0)"
  using assms(3)
proof (induction h arbitrary: r)
  case Nil
  then show ?case by auto
next
  case (Cons i h)
  let ?t = "unat (i mod mm)"
  let ?r1 = "if r = 1 \<and> bit_at bs ?t then 1 else 0 :: u64"
  have inb: "?t div 64 < length bs"
    using index_in_bounds [OF assms(1,2), of i] by (simp only: unat_shr6)
  have step: "Contains_loop mm (i # h) r bs = Contains_loop mm h ?r1 bs"
    using assms(1) inb Cons.prems
    by (simp only: Contains_loop.simps Let_def unat_shr6 unat_and_3f if_False if_True
        getbit_at and_flag)
  have "?r1 = 0 \<or> ?r1 = 1" by simp
  from Cons.IH [OF this] show ?case
    unfolding step by auto
qed

lemma AddC_loop_ok:
  assumes "mm \<noteq> 0" and "length bs = (unat mm + 63) div 64" and "r = 0 \<or> r = 1"
  shows "AddC_loop mm h r bs
         = (None, (if r = 1 \<and> (\<forall>i\<in>set h. bit_at bs (unat (i mod mm))) then 1 else 0),
            snd (Add_loop mm h bs))"
  using assms(2,3)
proof (induction h arbitrary: r bs)
  case Nil
  then show ?case by auto
next
  case (Cons i h)
  let ?t = "unat (i mod mm)"
  let ?r1 = "if r = 1 \<and> bit_at bs ?t then 1 else 0 :: u64"
  let ?bs1 = "bs[?t div 64 := bs ! (?t div 64) OR push_bit (?t mod 64) 1]"
  have inb: "?t div 64 < length bs"
    using index_in_bounds [OF assms(1) Cons.prems(1), of i] by (simp only: unat_shr6)
  have step: "AddC_loop mm (i # h) r bs = AddC_loop mm h ?r1 ?bs1"
    using assms(1) inb Cons.prems(2)
    by (simp only: AddC_loop.simps Let_def unat_shr6 unat_and_3f if_False if_True
        getbit_at and_flag)
  have step': "Add_loop mm (i # h) bs = Add_loop mm h ?bs1"
    using assms(1) inb
    by (simp only: Add_loop.simps Let_def unat_shr6 unat_and_3f if_False if_True)
  have len1: "length ?bs1 = (unat mm + 63) div 64"
    using Cons.prems(1) by simp
  have r1: "?r1 = 0 \<or> ?r1 = 1" by simp
  have same: "bit_at bs ?t \<Longrightarrow> bit_at ?bs1 j \<longleftrightarrow> bit_at bs j" for j
    using bit_at_update [OF inb, of j] by auto
  have flag: "(?r1 = 1 \<and> (\<forall>i\<in>set h. bit_at ?bs1 (unat (i mod mm))))
        \<longleftrightarrow> (r = 1 \<and> (\<forall>i\<in>set (i # h). bit_at bs (unat (i mod mm))))"
    using same by auto
  show ?case
    unfolding step step' Cons.IH [OF len1 r1] flag ..
qed


lemma heap_emit [simp]: "heap (emit e s) = heap s"
  by (simp add: emit_def)

lemma locklog_emit [simp]: "locklog (emit e s) = locklog s @ [e]"
  by (simp add: emit_def)

lemma heap_put [simp]: "heap (put a f s) = (heap s)[a := f]"
  by (simp add: put_def)

lemma locklog_put [simp]: "locklog (put a f s) = locklog s"
  by (simp add: put_def)

lemma bits_kept_refl: "bits_kept bs bs"
  by (simp add: bits_kept_def list_all2_refl)

lemma bits_kept_trans: "bits_kept bs bs' \<Longrightarrow> bits_kept bs' bs'' \<Longrightarrow> bits_kept bs bs''"
  unfolding bits_kept_def
proof (erule list_all2_trans [rotated])
  fix a b c :: u64
  assume "a AND b = a" and "b AND c = b"
  then show "a AND c = a" by (metis and.assoc)
qed

lemma bits_kept_update: "bits_kept bs (bs[k := bs ! k OR x])"
proof (cases "k < length bs")
  case True
  then show ?thesis
    by (simp add: bits_kept_def list_all2_conv_all_nth nth_list_update kept_or)
next
  case False
  then show ?thesis by (simp add: bits_kept_refl list_update_beyond)
qed

lemma bits_kept_length: "bits_kept bs bs' \<Longrightarrow> length bs' = length bs"
  by (simp add: bits_kept_def list_all2_lengthD)

lemma bit_at_kept: "bits_kept bs bs' \<Longrightarrow> bit_at bs j \<Longrightarrow> bit_at bs' j"
proof -
  assume k: "bits_kept bs bs'" and b: "bit_at bs j"
  have l: "length bs' = length bs" using k by (rule bits_kept_length)
  have "bs ! (j div 64) AND bs' ! (j div 64) = bs ! (j div 64)"
    using k b by (simp add: bits_kept_def bit_at_def list_all2_conv_all_nth)
  then have "bit (bs' ! (j div 64)) (j mod 64)"
    using b by (metis bit_and_iff bit_at_def)
  then show ?thesis using b l by (simp add: bit_at_def)
qed

lemma Add_loop_kept: "bits_kept bs (snd (Add_loop mm h bs))"
proof (induction h arbitrary: bs)
  case Nil
  show ?case by (simp add: bits_kept_refl)
next
  case (Cons i h)
  show ?case
    using bits_kept_trans [OF bits_kept_update Cons.IH]
    by (simp add: Let_def bits_kept_refl)
qed

lemma AddC_loop_Add_loop:
  "(fst (AddC_loop mm h r bs), snd (snd (AddC_loop mm h r bs))) = Add_loop mm h bs"
  by (induction h arbitrary: r bs) (simp_all add: Let_def)

lemma AddC_loop_kept: "bits_kept bs (snd (snd (AddC_loop mm h r bs)))"
  using Add_loop_kept [of bs mm h] AddC_loop_Add_loop [of mm h r bs]
  by (metis snd_conv)

lemma filter_ext_refl: "filter_ext f f"
  by (simp add: filter_ext_def bits_kept_refl)

lemma filter_ext_trans: "filter_ext f f' \<Longrightarrow> filter_ext f' f'' \<Longrightarrow> filter_ext f f''"
  by (auto simp add: filter_ext_def intro: bits_kept_trans)

lemma heap_ext_refl: "heap_ext h h"
  by (simp add: heap_ext_def list_all2_refl filter_ext_refl)

lemma heap_ext_iff:
  "heap_ext h h' \<longleftrightarrow> length h \<le> length h' \<and> (\<forall>p<length h. filter_ext (h ! p) (h' ! p))"
  by (auto simp add: heap_ext_def list_all2_conv_all_nth)

lemma heap_ext_trans: "heap_ext h h' \<Longrightarrow> heap_ext h' h'' \<Longrightarrow> heap_ext h h''"
  unfolding heap_ext_iff
  by (meson filter_ext_trans le_trans less_le_trans)

lemma heap_ext_update:
  assumes "a < length h \<Longrightarrow> filter_ext (h ! a) f'"
  shows "heap_ext h (h[a := f'])"
proof (cases "a < length h")
  case True
  then show ?thesis
    using assms by (simp add: heap_ext_iff nth_list_update filter_ext_refl)
next
  case False
  then show ?thesis by (simp add: heap_ext_refl list_update_beyond)
qed

lemma heap_ext_prefix:
  assumes "take (length h) h' = h" 
  shows "heap_ext h h'"
proof -
  have "length h \<le> length h'"
    using assms by (metis length_take min.cobounded1 min.commute)
  then show ?thesis using assms by (simp add: heap_ext_def list_all2_refl filter_ext_refl)
qed

lemma targets_hash:
  "(\<forall>i\<in>set (hash f v). bit_at bs (unat (i mod m f))) \<longleftrightarrow> list_all (bit_at bs) (targets f v)"
  by (simp add: hash_def targets_def list_all_iff)

lemma targets_hash_image:
  "(\<lambda>i. unat (i mod m f)) ` set (hash f v) = set (targets f v)"
  by (simp add: hash_def targets_def image_image)

lemma Contains_sized:
  assumes "a < length (heap s)" and "sized (heap s ! a)"
  shows "Contains a v s
         = (Inr (list_all (bit_at (bits (heap s ! a))) (targets (heap s ! a) v)),
            s\<lparr>locklog := locklog s @ [RLock a, RUnlock a]\<rparr>)"
proof -
  let ?f = "heap s ! a"
  have "Contains_loop (m ?f) (hash ?f v) 1 (bits ?f)
        = Inr (if list_all (bit_at (bits ?f)) (targets ?f v) then 1 else 0)"
    using assms(2) Contains_loop_ok [of "m ?f" "bits ?f" 1 "hash ?f v"]
    by (simp add: sized_def targets_hash)
  then show ?thesis
    using assms(1)
    by (simp add: Contains_def with_rlock_def Let_def uint64ToBool_def emit_def)
qed

lemma Add_sized:
  assumes "a < length (heap s)" and "sized (heap s ! a)"
  shows "\<exists>bs'. Add a v s
           = (Inr (),
              \<lparr>heap = (heap s)[a := (heap s ! a)\<lparr>bits := bs', n := n (heap s ! a) + 1\<rparr>],
               locklog = locklog s @ [RLock a, RUnlock a]\<rparr>)
         \<and> length bs' = length (bits (heap s ! a))
         \<and> (\<forall>j. bit_at bs' j \<longleftrightarrow>
                bit_at (bits (heap s ! a)) j \<or> j \<in> set (targets (heap s ! a) v))"
proof -
  let ?f = "heap s ! a"
  obtain bs' where l: "Add_loop (m ?f) (hash ?f v) (bits ?f) = (None, bs')"
    and len: "length bs' = length (bits ?f)"
    and b: "\<forall>j. bit_at bs' j \<longleftrightarrow> bit_at (bits ?f) j \<or> j \<in> set (targets ?f v)"
    using assms(2) Add_loop_ok [of "m ?f" "bits ?f" "hash ?f v"]
    unfolding sized_def targets_hash_image by blast
  have "Add a v s = (Inr (),
              \<lparr>heap = (heap s)[a := ?f\<lparr>bits := bs', n := n ?f + 1\<rparr>],
               locklog = locklog s @ [RLock a, RUnlock a]\<rparr>)"
    using assms(1) l
    by (simp add: Add_def with_rlock_def Let_def emit_def put_def)
  then show ?thesis using len b by blast
qed

lemma AddC_sized:
  assumes "a < length (heap s)" and "sized (heap s ! a)"
  shows "\<exists>bs'. AddC a v s
           = (Inr (list_all (bit_at (bits (heap s ! a))) (targets (heap s ! a) v)),
              \<lparr>heap = (heap s)[a := (heap s ! a)\<lparr>bits := bs', n := n (heap s ! a) + 1\<rparr>],
               locklog = locklog s @ [RLock a, RUnlock a]\<rparr>)
         \<and> length bs' = length (bits (heap s ! a))
         \<and> (\<forall>j. bit_at bs' j \<longleftrightarrow>
                bit_at (bits (heap s ! a)) j \<or> j \<in> set (targets (heap s ! a) v))"
proof -
  let ?f = "heap s ! a"
  obtain bs' where l: "Add_loop (m ?f) (hash ?f v) (bits ?f) = (None, bs')"
    and len: "length bs' = length (bits ?f)"
    and b: "\<forall>j. bit_at bs' j \<longleftrightarrow> bit_at (bits ?f) j \<or> j \<in> set (targets ?f v)"
    using assms(2) Add_loop_ok [of "m ?f" "bits ?f" "hash ?f v"]
    unfolding sized_def targets_hash_image by blast
  have "AddC_loop (m ?f) (hash ?f v) 1 (bits ?f)
        = (None, (if list_all (bit_at (bits ?f)) (targets ?f v) then 1 else 0), bs')"
    using assms(2) AddC_loop_ok [of "m ?f" "bits ?f" 1 "hash ?f v"] l
    by (simp add: sized_def targets_hash)
  then have "AddC a v s = (Inr (list_all (bit_at (bits ?f)) (targets ?f v)),
              \<lparr>heap = (heap s)[a := ?f\<lparr>bits := bs', n := n ?f + 1\<rparr>],
               locklog = locklog s @ [RLock a, RUnlock a]\<rparr>)"
    using assms(1)
    by (simp add: AddC_def Let_def emit_def put_def uint64ToBool_def)
  then show ?thesis using len b by blast
qed


lemma filter_ext_bits: "bits_kept (bits f) bs' \<Longrightarrow> filter_ext f (f\<lparr>bits := bs'\<rparr>)"
  by (simp add: filter_ext_def)

lemma filter_ext_bits_n: "bits_kept (bits f) bs' \<Longrightarrow> filter_ext f (f\<lparr>bits := bs', n := x\<rparr>)"
  by (simp add: filter_ext_def)

lemma heap_ext_length: "heap_ext h h' \<Longrightarrow> length h \<le> length h'"
  by (simp add: heap_ext_def)

lemma Add_heap_ext:
  "heap_ext (heap s) (heap (snd (Add a v s))) \<and> length (heap (snd (Add a v s))) = length (heap s)"
proof (cases "a < length (heap s)")
  case False
  then show ?thesis by (simp add: Add_def heap_ext_refl)
next
  case True
  let ?f = "heap s ! a"
  obtain e bs' where l: "Add_loop (m ?f) (hash ?f v) (bits ?f) = (e, bs')"
    by (cases "Add_loop (m ?f) (hash ?f v) (bits ?f)")
  have k: "bits_kept (bits ?f) bs'"
    using Add_loop_kept [of "bits ?f" "m ?f" "hash ?f v"] l by simp
  show ?thesis
    using True l heap_ext_update [of a "heap s", OF filter_ext_bits [OF k]]
      heap_ext_update [of a "heap s", OF filter_ext_bits_n [OF k]]
    by (cases e) (simp_all add: Add_def with_rlock_def Let_def)
qed

lemma AddC_heap_ext:
  "heap_ext (heap s) (heap (snd (AddC a v s))) \<and> length (heap (snd (AddC a v s))) = length (heap s)"
proof (cases "a < length (heap s)")
  case False
  then show ?thesis by (simp add: AddC_def heap_ext_refl)
next
  case True
  let ?f = "heap s ! a"
  obtain e r bs' where l: "AddC_loop (m ?f) (hash ?f v) 1 (bits ?f) = (e, r, bs')"
    by (cases "AddC_loop (m ?f) (hash ?f v) 1 (bits ?f)")
  have k: "bits_kept (bits ?f) bs'"
    using AddC_loop_kept [of "bits ?f" "m ?f" "hash ?f v" 1] l by simp
  show ?thesis
    using True l heap_ext_update [of a "heap s", OF filter_ext_bits [OF k]]
      heap_ext_update [of a "heap s", OF filter_ext_bits_n [OF k]]
    by (cases e) (simp_all add: AddC_def Let_def)
qed

lemma Contains_heap: "heap (snd (Contains a v s)) = heap s"
  by (simp add: Contains_def with_rlock_def Let_def split: sum.splits)

lemma IsCompatible_heap: "heap (snd (IsCompatible a b s)) = heap s"
  by (simp add: IsCompatible_def with_rlock_def)

lemma verifyCompatible_heap: "heap (snd (verifyCompatible a b s)) = heap s"
  by (simp add: verifyCompatible_def with_rlock_def)

lemma UnionInPlace_loop_ext:
  "heap_ext (heap s) (heap (snd (UnionInPlace_loop a b is s)))
   \<and> length (heap (snd (UnionInPlace_loop a b is s))) = length (heap s)"
proof (induction "is" arbitrary: s)
  case Nil
  show ?case by (simp add: heap_ext_refl)
next
  case (Cons i "is")
  let ?f = "heap s ! a"
  let ?s1 = "put a (?f\<lparr>bits := (bits ?f)[i := bits ?f ! i OR bits (heap s ! b) ! i]\<rparr>) s"
  have "heap_ext (heap s) (heap ?s1)"
    using heap_ext_update [of a "heap s", OF filter_ext_bits [OF bits_kept_update]]
    by simp
  moreover have "length (heap ?s1) = length (heap s)" by simp
  ultimately show ?case
    using Cons.IH [of ?s1] by (auto simp add: Let_def heap_ext_refl intro: heap_ext_trans)
qed

lemma UnionInPlace_heap_ext:
  "heap_ext (heap s) (heap (snd (UnionInPlace a b s)))
   \<and> length (heap (snd (UnionInPlace a b s))) = length (heap s)"
proof -
  let ?s0 = "emit (RLock b) (emit (RLock a) s)"
  obtain r s1 where v: "verifyCompatible a b ?s0 = (r, s1)"
    by (cases "verifyCompatible a b ?s0")
  have h1: "heap s1 = heap s"
    using verifyCompatible_heap [of a b ?s0] v by simp
  obtain e s2 where l: "UnionInPlace_loop a b [0..<length (bits (heap s1 ! b))] s1 = (e, s2)"
    by (cases "UnionInPlace_loop a b [0..<length (bits (heap s1 ! b))] s1")
  have "heap_ext (heap s) (heap s2) \<and> length (heap s2) = length (heap s)"
    using UnionInPlace_loop_ext [of s1 a b "[0..<length (bits (heap s1 ! b))]"] l h1 by simp
  then show ?thesis
    using v l h1
    by (cases r; cases e) (simp_all add: UnionInPlace_def with_rlock_def heap_ext_refl)
qed


lemma NewCompatible_cases:
  assumes "NewCompatible MMin KMin a s = (r, s')"
  shows "(\<exists>e. r = Inl e \<and> s' = s)
       \<or> (r = Inr (length (heap s)) \<and> a < length (heap s)
          \<and> heap s' = heap s @ [\<lparr>bits = replicate ((unat (m (heap s ! a)) + 63) div 64) 0,
                                   keys = keys (heap s ! a), m = m (heap s ! a), n = 0\<rparr>]
          \<and> locklog s' = locklog s)"
  using assms by (auto simp add: NewCompatible_def Let_def split: if_splits)

lemma Union_loop_prefix:
  "take out (heap (snd (Union_loop a b out is s))) = take out (heap s)
   \<and> length (heap (snd (Union_loop a b out is s))) = length (heap s)"
  by (induction "is" arbitrary: s) (simp_all add: Let_def)

lemma Copy_heap_ext: "heap_ext (heap s) (heap (snd (Copy MMin KMin a s)))"
proof -
  obtain r s1 where nc: "NewCompatible MMin KMin a s = (r, s1)"
    by (cases "NewCompatible MMin KMin a s")
  from NewCompatible_cases [OF nc] show ?thesis
  proof
    assume "\<exists>e. r = Inl e \<and> s1 = s"
    then show ?thesis using nc by (auto simp add: Copy_def heap_ext_refl)
  next
    assume ok: "r = Inr (length (heap s)) \<and> a < length (heap s)
          \<and> heap s1 = heap s @ [\<lparr>bits = replicate ((unat (m (heap s ! a)) + 63) div 64) 0,
                                   keys = keys (heap s ! a), m = m (heap s ! a), n = 0\<rparr>]
          \<and> locklog s1 = locklog s"
    then have "take (length (heap s)) (heap (snd (Copy MMin KMin a s))) = heap s"
      using nc by (simp add: Copy_def with_lock_def Let_def)
    then show ?thesis by (rule heap_ext_prefix)
  qed
qed

lemma UnionF_heap_ext: "heap_ext (heap s) (heap (snd (UnionF MMin KMin a b s)))"
proof -
  let ?s0 = "emit (RLock b) (emit (RLock a) s)"
  obtain r s1 where v: "verifyCompatible a b ?s0 = (r, s1)"
    by (cases "verifyCompatible a b ?s0")
  have h1: "heap s1 = heap s"
    using verifyCompatible_heap [of a b ?s0] v by simp
  obtain r2 s2 where nc: "NewCompatible MMin KMin a s1 = (r2, s2)"
    by (cases "NewCompatible MMin KMin a s1")
  obtain e s3 where l: "Union_loop a b (length (heap s)) [0..<length (bits (heap s2 ! b))] s2 = (e, s3)"
    by (cases "Union_loop a b (length (heap s)) [0..<length (bits (heap s2 ! b))] s2")
  have p: "take (length (heap s)) (heap s3) = take (length (heap s)) (heap s2)"
    using Union_loop_prefix [of "length (heap s)" a b "[0..<length (bits (heap s2 ! b))]" s2] l
    by simp
  from NewCompatible_cases [OF nc] have "take (length (heap s)) (heap (snd (UnionF MMin KMin a b s))) = heap s"
  proof
    assume "\<exists>e. r2 = Inl e \<and> s2 = s1"
    then show ?thesis
      using v nc h1 by (cases r) (auto simp add: UnionF_def with_rlock_def)
  next
    assume ok: "r2 = Inr (length (heap s1)) \<and> a < length (heap s1)
          \<and> heap s2 = heap s1 @ [\<lparr>bits = replicate ((unat (m (heap s1 ! a)) + 63) div 64) 0,
                                   keys = keys (heap s1 ! a), m = m (heap s1 ! a), n = 0\<rparr>]
          \<and> locklog s2 = locklog s1"
    then show ?thesis
      using v nc h1 l p by (cases r; cases e) (auto simp add: UnionF_def with_rlock_def)
  qed
  then show ?thesis by (rule heap_ext_prefix)
qed

lemma exec_heap_ext: "heap_ext (heap s) (heap (exec MMin KMin c s))"
  by (cases c)
    (simp_all add: Add_heap_ext AddC_heap_ext Contains_heap IsCompatible_heap
      Copy_heap_ext UnionInPlace_heap_ext UnionF_heap_ext heap_ext_refl)

lemma run_heap_ext: "heap_ext (heap s) (heap (run MMin KMin cs s))"
proof (induction cs arbitrary: s)
  case Nil
  show ?case by (simp add: heap_ext_refl)
next
  case (Cons c cs)
  show ?case
    using heap_ext_trans [OF exec_heap_ext Cons.IH] by simp
qed


lemma targets_cong: "m f' = m f \<Longrightarrow> keys f' = keys f \<Longrightarrow> targets f' v = targets f v"
  by (simp add: targets_def)

section \<open>No false negatives\<close>

text \<open>
  Claim C1: once \<open>Add(h)\<close> has been called on a filter, every later \<open>Contains(h)\<close> on
  that filter returns true, whatever is called in between. The filter is any filter
  of the store that satisfies the construction invariants; the calls in between are
  any sequence of calls of \<open>Add\<close>, \<open>AddC\<close>, \<open>Contains\<close>, \<open>IsCompatible\<close>, \<open>Copy\<close>,
  \<open>UnionInPlace\<close> and \<open>Union\<close> on any filters of the store, successful or not.
\<close>

theorem C1_no_false_negatives:
  assumes "a < length (heap s)" and "sized (heap s ! a)"
  shows "fst (Contains a v (run MMin KMin cs (snd (Add a v s)))) = Inr True"
proof -
  let ?f = "heap s ! a"
  let ?s1 = "snd (Add a v s)"
  let ?s2 = "run MMin KMin cs ?s1"
  obtain bs' where add: "heap ?s1 = (heap s)[a := ?f\<lparr>bits := bs', n := n ?f + 1\<rparr>]"
    and len: "length bs' = length (bits ?f)"
    and set: "\<forall>j. bit_at bs' j \<longleftrightarrow> bit_at (bits ?f) j \<or> j \<in> set (targets ?f v)"
    using Add_sized [OF assms, of v] by force
  have a1: "a < length (heap ?s1)"
    using assms(1) add by simp
  have f1: "heap ?s1 ! a = ?f\<lparr>bits := bs', n := n ?f + 1\<rparr>"
    using assms(1) add by simp
  have ext: "heap_ext (heap ?s1) (heap ?s2)"
    by (rule run_heap_ext)
  then have a2: "a < length (heap ?s2)"
    using a1 heap_ext_length by fastforce
  have fe: "filter_ext (heap ?s1 ! a) (heap ?s2 ! a)"
    using ext a1 by (simp add: heap_ext_iff)
  have m2: "m (heap ?s2 ! a) = m ?f" and k2: "keys (heap ?s2 ! a) = keys ?f"
    and kept: "bits_kept bs' (bits (heap ?s2 ! a))"
    using fe f1 by (simp_all add: filter_ext_def)
  have sized2: "sized (heap ?s2 ! a)"
    using assms(2) m2 len bits_kept_length [OF kept] by (simp add: sized_def)
  have "list_all (bit_at (bits (heap ?s2 ! a))) (targets (heap ?s2 ! a) v)"
    unfolding targets_cong [OF m2 k2] list_all_iff
    using set bit_at_kept [OF kept] by blast
  then show ?thesis
    using Contains_sized [OF a2 sized2, of v] by simp
qed

section \<open>Indices stay in bounds\<close>

text \<open>
  Claim C8: under the construction invariants \<open>m \<ge> 1\<close> and \<open>len(bits) = ceil(m/64)\<close>,
  for every hash and every key set, each word index \<open>((h XOR key) mod m) >> 6\<close> is
  below \<open>len(bits)\<close>, and \<open>Add\<close>, \<open>AddC\<close> and \<open>Contains\<close> return without a panic.
\<close>

theorem C8_index_in_bounds:
  assumes "a < length (heap s)" and "sized (heap s ! a)"
  shows "list_all (\<lambda>key. unat (drop_bit 6 ((v XOR key) mod m (heap s ! a)))
                          < length (bits (heap s ! a))) (keys (heap s ! a))
       \<and> fst (Add a v s) = Inr ()
       \<and> (\<exists>r. fst (AddC a v s) = Inr r)
       \<and> (\<exists>r. fst (Contains a v s) = Inr r)"
proof -
  have "list_all (\<lambda>key. unat (drop_bit 6 ((v XOR key) mod m (heap s ! a)))
                          < length (bits (heap s ! a))) (keys (heap s ! a))"
    using assms(2) index_in_bounds [of "m (heap s ! a)" "bits (heap s ! a)"]
    by (simp add: sized_def list_all_iff)
  moreover have "fst (Add a v s) = Inr ()"
    using Add_sized [OF assms, of v] by force
  moreover have "\<exists>r. fst (AddC a v s) = Inr r"
    using AddC_sized [OF assms, of v] by force
  moreover have "\<exists>r. fst (Contains a v s) = Inr r"
    using Contains_sized [OF assms, of v] by simp
  ultimately show ?thesis by blast
qed

lemma bit_at_zero: "list_all (\<lambda>w. w = 0) bs \<Longrightarrow> \<not> bit_at bs j"
  by (simp add: bit_at_def list_all_length)

section \<open>AddC\<close>

text \<open>
  Claim C7: \<open>AddC(h)\<close> returns true if and only if every one of the \<open>k\<close> target bits
  \<open>(h XOR key_i) mod m\<close> was set before the call, and adds one to \<open>n\<close> (in 64-bit
  arithmetic); on a filter with at least one key and all words zero it returns false.
\<close>

theorem C7_AddC:
  assumes "a < length (heap s)" and "sized (heap s ! a)"
  shows "fst (AddC a v s)
           = Inr (list_all (bit_at (bits (heap s ! a))) (targets (heap s ! a) v))
       \<and> n (heap (snd (AddC a v s)) ! a) = n (heap s ! a) + 1
       \<and> (keys (heap s ! a) \<noteq> [] \<and> list_all (\<lambda>w. w = 0) (bits (heap s ! a))
            \<longrightarrow> fst (AddC a v s) = Inr False)"
proof -
  let ?f = "heap s ! a"
  obtain bs' where r: "AddC a v s
           = (Inr (list_all (bit_at (bits ?f)) (targets ?f v)),
              \<lparr>heap = (heap s)[a := ?f\<lparr>bits := bs', n := n ?f + 1\<rparr>],
               locklog = locklog s @ [RLock a, RUnlock a]\<rparr>)"
    using AddC_sized [OF assms, of v] by blast
  have fresh: "\<not> list_all (bit_at (bits ?f)) (targets ?f v)"
    if "keys ?f \<noteq> []" and "list_all (\<lambda>w. w = 0) (bits ?f)"
  proof -
    from that(1) obtain key ks where "keys ?f = key # ks"
      by (auto simp add: neq_Nil_conv)
    then show ?thesis
      using bit_at_zero [OF that(2)] by (simp add: targets_def)
  qed
  show ?thesis
    using r assms(1) fresh by simp
qed

lemma heap_ext_no_bit_cleared:
  assumes "heap_ext (heap s) (heap s') \<and> length (heap s') = length (heap s)"
  shows "no_bit_cleared s s'"
  using assms
  by (simp add: no_bit_cleared_def heap_ext_iff list_all2_conv_all_nth filter_ext_def)

section \<open>Bits are never cleared\<close>

text \<open>
  Claim C10: \<open>Add\<close>, \<open>AddC\<close>, \<open>Contains\<close> and \<open>UnionInPlace\<close> never clear a set bit:
  every word of every filter of the store has, after the call, all the bits it had
  before. This holds for every store and every argument, whatever the call returns.
\<close>

theorem C10_no_bit_cleared:
  "no_bit_cleared s (snd (Add a v s))
   \<and> no_bit_cleared s (snd (AddC a v s))
   \<and> no_bit_cleared s (snd (Contains a v s))
   \<and> no_bit_cleared s (snd (UnionInPlace a b s))"
proof -
  have "heap_ext (heap s) (heap (snd (Contains a v s)))
        \<and> length (heap (snd (Contains a v s))) = length (heap s)"
    by (simp add: Contains_heap heap_ext_refl)
  then show ?thesis
    using heap_ext_no_bit_cleared [OF Add_heap_ext] heap_ext_no_bit_cleared [OF AddC_heap_ext]
      heap_ext_no_bit_cleared [OF UnionInPlace_heap_ext] heap_ext_no_bit_cleared
    by blast
qed

lemma xor_zero: "(x::u64) XOR y = 0 \<longleftrightarrow> x = y"
proof
  assume "x XOR y = 0"
  then have "x XOR (x XOR y) = x" by simp
  then show "x = y" by (simp add: xor.assoc [symmetric])
qed simp

lemma or_xor_zero: "(r::u64) OR (x XOR y) = 0 \<longleftrightarrow> r = 0 \<and> x = y"
  by (simp add: or_eq_0_iff xor_zero)

lemma noBranchCompare_loop_ok:
  assumes "i + length b0 \<le> length b1"
  shows "\<exists>r'. noBranchCompare_loop r i b0 b1 = Inr r'
           \<and> (r' = 0 \<longleftrightarrow> r = 0 \<and> (\<forall>j<length b0. b0 ! j = b1 ! (i + j)))"
  using assms
proof (induction b0 arbitrary: r i)
  case Nil
  then show ?case by simp
next
  case (Cons x b0)
  have inb: "i < length b1" and rest: "Suc i + length b0 \<le> length b1"
    using Cons.prems by simp_all
  obtain r' where l: "noBranchCompare_loop (r OR (x XOR b1 ! i)) (Suc i) b0 b1 = Inr r'"
    and z: "r' = 0 \<longleftrightarrow> r OR (x XOR b1 ! i) = 0 \<and> (\<forall>j<length b0. b0 ! j = b1 ! (Suc i + j))"
    using Cons.IH [OF rest] by blast
  have "(\<forall>j<length (x # b0). (x # b0) ! j = b1 ! (i + j))
        \<longleftrightarrow> x = b1 ! i \<and> (\<forall>j<length b0. b0 ! j = b1 ! (Suc i + j))"
    by (auto simp add: less_Suc_eq_0_disj)
  then show ?case
    using inb l z by (simp add: or_xor_zero)
qed

lemma noBranchCompareUint64s_ok:
  assumes "length b0 = length b1"
  shows "\<exists>r. noBranchCompareUint64s b0 b1 = Inr r \<and> (r = 0 \<longleftrightarrow> b0 = b1)"
proof -
  obtain r where l: "noBranchCompare_loop 0 0 b0 b1 = Inr r"
    and z: "r = 0 \<longleftrightarrow> (0::u64) = 0 \<and> (\<forall>j<length b0. b0 ! j = b1 ! (0 + j))"
    using noBranchCompare_loop_ok [of 0 b0 b1 0] assms by auto
  have "r = 0 \<longleftrightarrow> b0 = b1"
    using z assms by (auto simp add: list_eq_iff_nth_eq)
  then show ?thesis
    using l by (simp add: noBranchCompareUint64s_def)
qed

lemma isCompatible_iff: "isCompatible f f2 = Inr (m f = m f2 \<and> keys f = keys f2)"
proof (cases "m f = m f2 \<and> length (keys f) = length (keys f2)")
  case True
  then obtain r where "noBranchCompareUint64s (keys f) (keys f2) = Inr r"
    and "r = 0 \<longleftrightarrow> keys f = keys f2"
    using noBranchCompareUint64s_ok [of "keys f" "keys f2"] by blast
  then show ?thesis
    using True by (simp add: isCompatible_def M_def K_def)
next
  case False
  then show ?thesis
    by (auto simp add: isCompatible_def M_def K_def)
qed

section \<open>IsCompatible\<close>

text \<open>
  Claim C6: \<open>IsCompatible(f, f2)\<close> is true if and only if the sizes are equal, the key
  counts are equal and the keys are the same at every position; \<open>IsCompatible(f, f)\<close>
  is true.
\<close>

theorem C6_IsCompatible:
  assumes "a < length (heap s)" and "b < length (heap s)"
  shows "fst (IsCompatible a b s)
           = Inr (m (heap s ! a) = m (heap s ! b)
                  \<and> K (heap s ! a) = K (heap s ! b)
                  \<and> list_all2 (=) (keys (heap s ! a)) (keys (heap s ! b)))
       \<and> fst (IsCompatible a a s) = Inr True"
proof -
  have "fst (IsCompatible x y s) = isCompatible (heap s ! x) (heap s ! y)"
    if "x < length (heap s)" and "y < length (heap s)" for x y
    using that by (simp add: IsCompatible_def with_rlock_def)
  then show ?thesis
    using assms by (auto simp add: isCompatible_iff K_def list_all2_eq [symmetric])
qed

lemma fold_or_nth:
  assumes "k \<le> length bs"
  shows "length (fold (\<lambda>i bs. bs[i := bs ! i OR ws ! i]) [0..<k] bs) = length bs
       \<and> (\<forall>j<length bs. fold (\<lambda>i bs. bs[i := bs ! i OR ws ! i]) [0..<k] bs ! j
                          = (if j < k then bs ! j OR ws ! j else bs ! j))"
  using assms
proof (induction k)
  case 0
  show ?case by simp
next
  case (Suc k)
  then show ?case
    by (auto simp add: nth_list_update less_Suc_eq)
qed

lemma fold_or_map2:
  assumes "length ws = length bs"
  shows "fold (\<lambda>i bs. bs[i := bs ! i OR ws ! i]) [0..<length bs] bs = map2 (OR) bs ws"
proof (rule nth_equalityI)
  show "length (fold (\<lambda>i bs. bs[i := bs ! i OR ws ! i]) [0..<length bs] bs)
        = length (map2 (OR) bs ws)"
    using fold_or_nth [of "length bs" bs ws] assms by simp
next
  fix j
  assume "j < length (fold (\<lambda>i bs. bs[i := bs ! i OR ws ! i]) [0..<length bs] bs)"
  then have "j < length bs"
    using fold_or_nth [of "length bs" bs ws] by simp
  then show "fold (\<lambda>i bs. bs[i := bs ! i OR ws ! i]) [0..<length bs] bs ! j
             = map2 (OR) bs ws ! j"
    using fold_or_nth [of "length bs" bs ws] assms by simp
qed

lemma or_self_update: "(bs::u64 list)[i := bs ! i OR bs ! i] = bs"
  by simp

lemma UnionInPlace_loop_fold:
  assumes "a < length (heap s)" and "b < length (heap s)"
    and "\<forall>i\<in>set is. i < length (bits (heap s ! a))"
  shows "UnionInPlace_loop a b is s
         = (None, s\<lparr>heap := (heap s)[a := (heap s ! a)
              \<lparr>bits := fold (\<lambda>i bs. bs[i := bs ! i OR bits (heap s ! b) ! i]) is
                          (bits (heap s ! a))\<rparr>]\<rparr>)"
  using assms
proof (induction "is" arbitrary: s)
  case Nil
  then show ?case by simp
next
  case (Cons i "is")
  let ?f = "heap s ! a"
  let ?ws = "bits (heap s ! b)"
  let ?bs1 = "(bits ?f)[i := bits ?f ! i OR ?ws ! i]"
  let ?s1 = "put a (?f\<lparr>bits := ?bs1\<rparr>) s"
  have inb: "i < length (bits ?f)" using Cons.prems(3) by simp
  have step: "UnionInPlace_loop a b (i # is) s = UnionInPlace_loop a b is ?s1"
    using inb by (simp add: Let_def)
  have a1: "a < length (heap ?s1)" and b1: "b < length (heap ?s1)"
    using Cons.prems(1,2) by simp_all
  have fa: "heap ?s1 ! a = ?f\<lparr>bits := ?bs1\<rparr>"
    using Cons.prems(1) by simp
  have wb: "bits (heap ?s1 ! b) = ?ws"
  proof (cases "a = b")
    case True
    then show ?thesis using fa by simp
  next
    case False
    then show ?thesis by simp
  qed
  have rest: "\<forall>i\<in>set is. i < length (bits (heap ?s1 ! a))"
    using Cons.prems(3) fa by simp
  show ?case
    unfolding step Cons.IH [OF a1 b1 rest] fa wb
    by (simp add: put_def)
qed

lemma verifyCompatible_ok:
  assumes "a < length (heap s)" and "b < length (heap s)"
    and "isCompatible (heap s ! a) (heap s ! b) = Inr True"
  shows "verifyCompatible a b s
         = (Inr (), s\<lparr>locklog := locklog s @ [RLock a, RLock b, RUnlock b, RUnlock a]\<rparr>)"
  using assms
  by (simp add: verifyCompatible_def with_rlock_def verifyCompatible_body_def emit_def)

lemma UnionInPlace_ok:
  assumes "a < length (heap s)" and "b < length (heap s)"
    and "isCompatible (heap s ! a) (heap s ! b) = Inr True"
    and "length (bits (heap s ! b)) = length (bits (heap s ! a))"
  shows "UnionInPlace a b s
         = (Inr (),
            \<lparr>heap = (heap s)[a := (heap s ! a)
                      \<lparr>bits := map2 (OR) (bits (heap s ! a)) (bits (heap s ! b))\<rparr>],
             locklog = locklog s @ [RLock a, RLock b, RLock a, RLock b,
                                    RUnlock b, RUnlock a, RUnlock b, RUnlock a]\<rparr>)"
proof -
  let ?s0 = "emit (RLock b) (emit (RLock a) s)"
  let ?s1 = "?s0\<lparr>locklog := locklog ?s0 @ [RLock a, RLock b, RUnlock b, RUnlock a]\<rparr>"
  have v: "verifyCompatible a b ?s0 = (Inr (), ?s1)"
    using assms(1-3) by (intro verifyCompatible_ok) simp_all
  have l: "UnionInPlace_loop a b [0..<length (bits (heap ?s1 ! b))] ?s1
         = (None, ?s1\<lparr>heap := (heap s)[a := (heap s ! a)
              \<lparr>bits := map2 (OR) (bits (heap s ! a)) (bits (heap s ! b))\<rparr>]\<rparr>)"
    using UnionInPlace_loop_fold [of a ?s1 b "[0..<length (bits (heap ?s1 ! b))]"]
      assms(1,2,4) fold_or_map2 [OF assms(4)]
    by simp
  show ?thesis
    using assms(1,2) v l
    by (simp add: UnionInPlace_def with_rlock_def emit_def)
qed


lemma map2_or_self: "map2 (OR) (bs::u64 list) bs = bs"
  by (induction bs) simp_all

lemma sized_compatible_length:
  assumes "isCompatible f f2 = Inr True" and "sized f" and "sized f2"
  shows "length (bits f2) = length (bits f)"
  using assms by (simp add: isCompatible_iff sized_def)

section \<open>UnionInPlace\<close>

text \<open>
  Claim C4: for compatible filters \<open>f\<close> and \<open>f2\<close> (that satisfy the construction
  invariants), \<open>UnionInPlace(f, f2)\<close> returns no error, replaces every word of \<open>f.bits\<close>
  by its OR with the word of \<open>f2.bits\<close> at the same position and changes nothing else
  in the store: \<open>f2\<close> is as before (also when \<open>f\<close> and \<open>f2\<close> are the same object) and
  \<open>f.n\<close> is as before.
\<close>

theorem C4_UnionInPlace:
  assumes "a < length (heap s)" and "b < length (heap s)"
    and "isCompatible (heap s ! a) (heap s ! b) = Inr True"
    and "sized (heap s ! a)" and "sized (heap s ! b)"
  shows "fst (UnionInPlace a b s) = Inr ()
       \<and> heap (snd (UnionInPlace a b s))
           = (heap s)[a := (heap s ! a)
                \<lparr>bits := map2 (OR) (bits (heap s ! a)) (bits (heap s ! b))\<rparr>]
       \<and> heap (snd (UnionInPlace a b s)) ! b = heap s ! b
       \<and> n (heap (snd (UnionInPlace a b s)) ! a) = n (heap s ! a)"
proof -
  have len: "length (bits (heap s ! b)) = length (bits (heap s ! a))"
    using assms(3-5) by (rule sized_compatible_length)
  note r = UnionInPlace_ok [OF assms(1-3) len]
  have "heap (snd (UnionInPlace a b s)) ! b = heap s ! b"
  proof (cases "a = b")
    case True
    then show ?thesis using r assms(1) by (simp add: map2_or_self)
  next
    case False
    then show ?thesis using r by simp
  qed
  then show ?thesis
    using r assms(1) by simp
qed

lemma fold_set_nth:
  assumes "k \<le> length zs"
  shows "length (fold (\<lambda>i bs. bs[i := h i]) [0..<k] zs) = length zs
       \<and> (\<forall>j<length zs. fold (\<lambda>i bs. bs[i := h i]) [0..<k] zs ! j
                          = (if j < k then h j else zs ! j))"
  using assms
proof (induction k)
  case 0
  show ?case by simp
next
  case (Suc k)
  then show ?case
    by (auto simp add: nth_list_update less_Suc_eq)
qed

lemma fold_set_map2:
  assumes "length xs = length zs" and "length ws = length zs"
  shows "fold (\<lambda>i bs. bs[i := xs ! i OR ws ! i]) [0..<length zs] zs = map2 (OR) xs ws"
proof (rule nth_equalityI)
  show "length (fold (\<lambda>i bs. bs[i := xs ! i OR ws ! i]) [0..<length zs] zs)
        = length (map2 (OR) xs ws)"
    using fold_set_nth [of "length zs" zs "\<lambda>i. xs ! i OR ws ! i"] assms by simp
next
  fix j
  assume "j < length (fold (\<lambda>i bs. bs[i := xs ! i OR ws ! i]) [0..<length zs] zs)"
  then have "j < length zs"
    using fold_set_nth [of "length zs" zs "\<lambda>i. xs ! i OR ws ! i"] by simp
  then show "fold (\<lambda>i bs. bs[i := xs ! i OR ws ! i]) [0..<length zs] zs ! j
             = map2 (OR) xs ws ! j"
    using fold_set_nth [of "length zs" zs "\<lambda>i. xs ! i OR ws ! i"] assms by simp
qed

lemma Union_loop_fold:
  assumes "a < out" and "b < out" and "out < length (heap s)"
    and "\<forall>i\<in>set is. i < length (bits (heap s ! a)) \<and> i < length (bits (heap s ! out))"
  shows "Union_loop a b out is s
         = (None, s\<lparr>heap := (heap s)[out := (heap s ! out)
              \<lparr>bits := fold (\<lambda>i bs. bs[i := bits (heap s ! a) ! i OR bits (heap s ! b) ! i])
                          is (bits (heap s ! out))\<rparr>]\<rparr>)"
  using assms(3,4)
proof (induction "is" arbitrary: s)
  case Nil
  then show ?case by simp
next
  case (Cons i "is")
  let ?g = "heap s ! out"
  let ?bs1 = "(bits ?g)[i := bits (heap s ! a) ! i OR bits (heap s ! b) ! i]"
  let ?s1 = "put out (?g\<lparr>bits := ?bs1\<rparr>) s"
  have inb: "i < length (bits (heap s ! a)) \<and> i < length (bits ?g)"
    using Cons.prems(2) by simp
  have step: "Union_loop a b out (i # is) s = Union_loop a b out is ?s1"
    using inb by (simp add: Let_def)
  have o1: "out < length (heap ?s1)"
    using Cons.prems(1) by simp
  have fo: "heap ?s1 ! out = ?g\<lparr>bits := ?bs1\<rparr>"
    using Cons.prems(1) by simp
  have fa: "heap ?s1 ! a = heap s ! a" and fb: "heap ?s1 ! b = heap s ! b"
    using assms(1,2) by simp_all
  have rest: "\<forall>i\<in>set is. i < length (bits (heap ?s1 ! a)) \<and> i < length (bits (heap ?s1 ! out))"
    using Cons.prems(2) fo fa by simp
  show ?case
    unfolding step Cons.IH [OF o1 rest] fo fa fb
    by (simp add: put_def)
qed

lemma UnionF_ok:
  assumes "a < length (heap s)" and "b < length (heap s)"
    and "isCompatible (heap s ! a) (heap s ! b) = Inr True"
    and "length (bits (heap s ! a)) = (unat (m (heap s ! a)) + 63) div 64"
    and "length (bits (heap s ! b)) = (unat (m (heap s ! a)) + 63) div 64"
    and "constructible MMin KMin (heap s ! a)"
  shows "UnionF MMin KMin a b s
         = (Inr (length (heap s)),
            \<lparr>heap = heap s @ [\<lparr>bits = map2 (OR) (bits (heap s ! a)) (bits (heap s ! b)),
                                keys = keys (heap s ! a), m = m (heap s ! a), n = 0\<rparr>],
             locklog = locklog s @ [RLock a, RLock b, RLock a, RLock b,
                                    RUnlock b, RUnlock a, RUnlock b, RUnlock a]\<rparr>)"
proof -
  let ?f = "heap s ! a"
  let ?w = "(unat (m ?f) + 63) div 64"
  let ?out = "length (heap s)"
  let ?s0 = "emit (RLock b) (emit (RLock a) s)"
  let ?s1 = "?s0\<lparr>locklog := locklog ?s0 @ [RLock a, RLock b, RUnlock b, RUnlock a]\<rparr>"
  let ?new = "\<lparr>bits = replicate ?w 0, keys = keys ?f, m = m ?f, n = 0\<rparr>"
  let ?s2 = "?s1\<lparr>heap := heap s @ [?new]\<rparr>"
  have v: "verifyCompatible a b ?s0 = (Inr (), ?s1)"
    using assms(1-3) by (intro verifyCompatible_ok) simp_all
  have nc: "NewCompatible MMin KMin a ?s1 = (Inr ?out, ?s2)"
    using assms(1,6) by (simp add: NewCompatible_def constructible_def Let_def not_less)
  have lb: "length (bits (heap ?s2 ! b)) = ?w"
    using assms(2,5) by (simp add: nth_append)
  have pre: "\<forall>i\<in>set [0..<?w]. i < length (bits (heap ?s2 ! a))
                               \<and> i < length (bits (heap ?s2 ! ?out))"
    using assms(1,4) by (simp add: nth_append)
  have l: "Union_loop a b ?out [0..<length (bits (heap ?s2 ! b))] ?s2
         = (None, ?s2\<lparr>heap := heap s @ [?new\<lparr>bits := map2 (OR) (bits ?f) (bits (heap s ! b))\<rparr>]\<rparr>)"
    unfolding lb
    using Union_loop_fold [OF assms(1,2) _ pre]
      fold_set_map2 [of "bits ?f" "replicate ?w 0" "bits (heap s ! b)"] assms(1,2,4,5)
    by (simp add: nth_append)
  show ?thesis
    using assms(1,2) v nc l
    by (simp add: UnionF_def with_rlock_def emit_def)
qed

section \<open>Union\<close>

text \<open>
  Claim C3: for compatible filters \<open>f\<close> and \<open>f2\<close> (that satisfy the invariants of the
  data model), \<open>Union(f, f2)\<close> returns a new filter with the \<open>m\<close> and the keys of \<open>f\<close>,
  whose words are the ORs of the words of \<open>f\<close> and \<open>f2\<close> at the same positions; the
  store is otherwise as before, so \<open>f\<close> and \<open>f2\<close> are unchanged.
\<close>

theorem C3_Union:
  assumes "a < length (heap s)" and "b < length (heap s)"
    and "isCompatible (heap s ! a) (heap s ! b) = Inr True"
    and "sized (heap s ! a)" and "sized (heap s ! b)"
    and "constructible MMin KMin (heap s ! a)"
  shows "fst (UnionF MMin KMin a b s) = Inr (length (heap s))
       \<and> heap (snd (UnionF MMin KMin a b s))
           = heap s @ [\<lparr>bits = map2 (OR) (bits (heap s ! a)) (bits (heap s ! b)),
                         keys = keys (heap s ! a), m = m (heap s ! a), n = 0\<rparr>]
       \<and> heap (snd (UnionF MMin KMin a b s)) ! a = heap s ! a
       \<and> heap (snd (UnionF MMin KMin a b s)) ! b = heap s ! b"
proof -
  have la: "length (bits (heap s ! a)) = (unat (m (heap s ! a)) + 63) div 64"
    using assms(4) by (simp add: sized_def)
  have lb: "length (bits (heap s ! b)) = (unat (m (heap s ! a)) + 63) div 64"
    using assms(3,5) by (simp add: sized_def isCompatible_iff)
  show ?thesis
    using UnionF_ok [OF assms(1-3) la lb assms(6)] assms(1,2)
    by (simp add: nth_append)
qed

lemma UnionInPlace_loop_locklog: "locklog (snd (UnionInPlace_loop a b is s)) = locklog s"
  by (induction "is" arbitrary: s) (simp_all add: Let_def)

lemma Union_loop_locklog: "locklog (snd (Union_loop a b out is s)) = locklog s"
  by (induction "is" arbitrary: s) (simp_all add: Let_def)

lemma NewCompatible_locklog: "locklog (snd (NewCompatible MMin KMin a s)) = locklog s"
  by (simp add: NewCompatible_def Let_def)

lemma NewCompatible_length: "length (heap s) \<le> length (heap (snd (NewCompatible MMin KMin a s)))"
  by (simp add: NewCompatible_def Let_def)

lemma verifyCompatible_locklog:
  assumes "a < length (heap s)" and "b < length (heap s)"
  shows "locklog (snd (verifyCompatible a b s))
         = locklog s @ [RLock a, RLock b, RUnlock b, RUnlock a]"
  using assms by (simp add: verifyCompatible_def with_rlock_def)

lemma IsCompatible_locklog:
  assumes "a < length (heap s)" and "b < length (heap s)"
  shows "locklog (snd (IsCompatible a b s))
         = locklog s @ [RLock a, RLock b, RUnlock b, RUnlock a]"
  using assms by (simp add: IsCompatible_def with_rlock_def)

lemma UnionInPlace_locklog:
  assumes "a < length (heap s)" and "b < length (heap s)"
  shows "locklog (snd (UnionInPlace a b s))
         = locklog s @ [RLock a, RLock b, RLock a, RLock b,
                        RUnlock b, RUnlock a, RUnlock b, RUnlock a]"
proof -
  let ?s0 = "emit (RLock b) (emit (RLock a) s)"
  obtain r s1 where v: "verifyCompatible a b ?s0 = (r, s1)"
    by (cases "verifyCompatible a b ?s0")
  have l1: "locklog s1 = locklog ?s0 @ [RLock a, RLock b, RUnlock b, RUnlock a]"
    using verifyCompatible_locklog [of a ?s0 b] assms v by simp
  obtain e s2 where l: "UnionInPlace_loop a b [0..<length (bits (heap s1 ! b))] s1 = (e, s2)"
    by (cases "UnionInPlace_loop a b [0..<length (bits (heap s1 ! b))] s1")
  have l2: "locklog s2 = locklog s1"
    using UnionInPlace_loop_locklog [of a b "[0..<length (bits (heap s1 ! b))]" s1] l by simp
  show ?thesis
    using assms v l l1 l2
    by (cases r; cases e) (simp_all add: UnionInPlace_def with_rlock_def)
qed

lemma UnionF_locklog:
  assumes "a < length (heap s)" and "b < length (heap s)"
  shows "locklog (snd (UnionF MMin KMin a b s))
         = locklog s @ [RLock a, RLock b, RLock a, RLock b,
                        RUnlock b, RUnlock a, RUnlock b, RUnlock a]"
proof -
  let ?s0 = "emit (RLock b) (emit (RLock a) s)"
  obtain r s1 where v: "verifyCompatible a b ?s0 = (r, s1)"
    by (cases "verifyCompatible a b ?s0")
  have l1: "locklog s1 = locklog ?s0 @ [RLock a, RLock b, RUnlock b, RUnlock a]"
    using verifyCompatible_locklog [of a ?s0 b] assms v by simp
  obtain r2 s2 where nc: "NewCompatible MMin KMin a s1 = (r2, s2)"
    by (cases "NewCompatible MMin KMin a s1")
  have l2: "locklog s2 = locklog s1"
    using NewCompatible_locklog [of MMin KMin a s1] nc by simp
  have l3: "locklog (snd (Union_loop a b out is s2)) = locklog s1" for out "is"
    using Union_loop_locklog [of a b out "is" s2] l2 by simp
  show ?thesis
    using assms v nc l1 l2 l3
    by (cases r; cases r2)
      (simp_all add: UnionF_def with_rlock_def split: prod.splits option.splits, (metis snd_conv)+)
qed

lemma Copy_locklog:
  assumes "a < length (heap s)" and "constructible MMin KMin (heap s ! a)"
  shows "locklog (snd (Copy MMin KMin a s)) = locklog s @ [Lock a, Unlock a]"
  using assms
  by (simp add: Copy_def NewCompatible_def constructible_def Let_def not_less with_lock_def)


lemma new_events_append: "locklog s' = locklog s @ evs \<Longrightarrow> new_events s s' = evs"
  by (simp add: new_events_def)

section \<open>Lock modes\<close>

text \<open>
  Claim C9: \<open>Copy\<close>, \<open>Union\<close>, \<open>UnionInPlace\<close> and \<open>IsCompatible\<close> each acquire the
  filter's guard in exclusive mode. In the source only \<open>Copy\<close> calls \<open>Lock\<close>; the other
  three call \<open>RLock\<close>. On the store with two compatible filters none of the three
  logs an exclusive acquisition of either guard.
\<close>

theorem C9_no_exclusive_lock_counterexample:
  "Lock 0 \<notin> set (new_events store0 (snd (UnionInPlace 0 1 store0)))
   \<and> Lock 1 \<notin> set (new_events store0 (snd (UnionInPlace 0 1 store0)))
   \<and> Lock 0 \<notin> set (new_events store0 (snd (UnionF 2 1 0 1 store0)))
   \<and> Lock 1 \<notin> set (new_events store0 (snd (UnionF 2 1 0 1 store0)))
   \<and> Lock 0 \<notin> set (new_events store0 (snd (IsCompatible 0 1 store0)))
   \<and> Lock 1 \<notin> set (new_events store0 (snd (IsCompatible 0 1 store0)))"
  by code_simp

text \<open>
  Claim C9 as amended: on filters of the store, \<open>IsCompatible\<close> read-locks \<open>f\<close> and
  \<open>f2\<close> and releases them; \<open>UnionInPlace\<close> and \<open>Union\<close> read-lock \<open>f\<close> and \<open>f2\<close>, do
  so a second time inside \<open>verifyCompatible\<close>, and release them, whatever they
  return; none of the three takes a guard in exclusive mode. \<open>Copy\<close>, once the new
  filter is constructed, takes the guard of \<open>f\<close> in exclusive mode and releases it.
\<close>

theorem C9_lock_modes:
  assumes "a < length (heap s)" and "b < length (heap s)"
  shows "new_events s (snd (IsCompatible a b s)) = [RLock a, RLock b, RUnlock b, RUnlock a]
       \<and> new_events s (snd (UnionInPlace a b s))
           = [RLock a, RLock b, RLock a, RLock b, RUnlock b, RUnlock a, RUnlock b, RUnlock a]
       \<and> new_events s (snd (UnionF MMin KMin a b s))
           = [RLock a, RLock b, RLock a, RLock b, RUnlock b, RUnlock a, RUnlock b, RUnlock a]
       \<and> (constructible MMin KMin (heap s ! a)
            \<longrightarrow> new_events s (snd (Copy MMin KMin a s)) = [Lock a, Unlock a])"
  using new_events_append [OF IsCompatible_locklog [OF assms]]
    new_events_append [OF UnionInPlace_locklog [OF assms]]
    new_events_append [OF UnionF_locklog [OF assms]]
    new_events_append [OF Copy_locklog [OF assms(1)]]
  by blast

theorem C9_lock_modes_witness:
  "0 < length (heap store0) \<and> 1 < length (heap store0)
   \<and> constructible 2 1 (heap store0 ! 0)
   \<and> new_events store0 (snd (IsCompatible 0 1 store0))
       = [RLock 0, RLock 1, RUnlock 1, RUnlock 0]
   \<and> new_events store0 (snd (UnionInPlace 0 1 store0))
       = [RLock 0, RLock 1, RLock 0, RLock 1, RUnlock 1, RUnlock 0, RUnlock 1, RUnlock 0]
   \<and> new_events store0 (snd (UnionF 2 1 0 1 store0))
       = [RLock 0, RLock 1, RLock 0, RLock 1, RUnlock 1, RUnlock 0, RUnlock 1, RUnlock 0]
   \<and> new_events store0 (snd (Copy 2 1 0 store0)) = [Lock 0, Unlock 0]"
proof -
  have h1: "0 < length (heap store0)" and h2: "1 < length (heap store0)"
    by (simp_all add: store0_def)
  have h3: "constructible 2 1 (heap store0 ! 0)"
    by (simp add: store0_def constructible_def)
  show ?thesis
    using h1 h2 h3 C9_lock_modes [OF h1 h2, of 2 1] by blast
qed

section \<open>The theorems at a concrete store\<close>

theorem C1_no_false_negatives_witness:
  "0 < length (heap store0) \<and> sized (heap store0 ! 0)
   \<and> fst (Contains 0 5
        (run 2 1 [CallAddC 0 7, CallUnionInPlace 0 1, CallUnion 0 1, CallCopy 0, CallAdd 1 5,
                  CallContains 0 9, CallIsCompatible 1 0]
           (snd (Add 0 5 store0)))) = Inr True"
proof -
  have h1: "0 < length (heap store0)"
    by (simp add: store0_def)
  have h2: "sized (heap store0 ! 0)"
    by (simp add: store0_def sized_def)
  show ?thesis
    using h1 h2 C1_no_false_negatives [OF h1 h2] by blast
qed

theorem C8_index_in_bounds_witness:
  "0 < length (heap store0) \<and> sized (heap store0 ! 0)
   \<and> list_all (\<lambda>key. unat (drop_bit 6 ((5 XOR key) mod m (heap store0 ! 0)))
                          < length (bits (heap store0 ! 0))) (keys (heap store0 ! 0))
   \<and> fst (Add 0 5 store0) = Inr ()
   \<and> (\<exists>r. fst (AddC 0 5 store0) = Inr r)
   \<and> (\<exists>r. fst (Contains 0 5 store0) = Inr r)"
proof -
  have h1: "0 < length (heap store0)"
    by (simp add: store0_def)
  have h2: "sized (heap store0 ! 0)"
    by (simp add: store0_def sized_def)
  show ?thesis
    using h1 h2 C8_index_in_bounds [OF h1 h2, of 5] by blast
qed

theorem C7_AddC_witness:
  "0 < length (heap store0) \<and> sized (heap store0 ! 0)
   \<and> keys (heap store0 ! 0) \<noteq> [] \<and> list_all (\<lambda>w. w = 0) (bits (heap store0 ! 0))
   \<and> fst (AddC 0 5 store0) = Inr False
   \<and> n (heap (snd (AddC 0 5 store0)) ! 0) = 1"
proof -
  have h1: "0 < length (heap store0)"
    by (simp add: store0_def)
  have h2: "sized (heap store0 ! 0)"
    by (simp add: store0_def sized_def)
  have h3: "keys (heap store0 ! 0) \<noteq> []" and h4: "list_all (\<lambda>w. w = 0) (bits (heap store0 ! 0))"
    and h5: "n (heap store0 ! 0) = 0"
    by (simp_all add: store0_def)
  show ?thesis
    using h1 h2 h3 h4 h5 C7_AddC [OF h1 h2, of 5] by auto
qed

theorem C6_IsCompatible_witness:
  "0 < length (heap store0) \<and> 1 < length (heap store0)
   \<and> fst (IsCompatible 0 1 store0) = Inr True
   \<and> fst (IsCompatible 0 0 store0) = Inr True"
proof -
  have h1: "0 < length (heap store0)" and h2: "1 < length (heap store0)"
    by (simp_all add: store0_def)
  have h3: "m (heap store0 ! 0) = m (heap store0 ! 1)
            \<and> K (heap store0 ! 0) = K (heap store0 ! 1)
            \<and> list_all2 (=) (keys (heap store0 ! 0)) (keys (heap store0 ! 1))"
    by (simp add: store0_def K_def)
  show ?thesis
    using h1 h2 h3 C6_IsCompatible [OF h1 h2] by simp
qed

theorem C4_UnionInPlace_witness:
  "0 < length (heap store0) \<and> 1 < length (heap store0)
   \<and> isCompatible (heap store0 ! 0) (heap store0 ! 1) = Inr True
   \<and> sized (heap store0 ! 0) \<and> sized (heap store0 ! 1)
   \<and> fst (UnionInPlace 0 1 store0) = Inr ()
   \<and> heap (snd (UnionInPlace 0 1 store0))
       = [\<lparr>bits = [32], keys = [1], m = 64, n = 0\<rparr>,
          \<lparr>bits = [32], keys = [1], m = 64, n = 3\<rparr>]"
proof -
  have h1: "0 < length (heap store0)" and h2: "1 < length (heap store0)"
    by (simp_all add: store0_def)
  have h3: "isCompatible (heap store0 ! 0) (heap store0 ! 1) = Inr True"
    by (simp add: store0_def isCompatible_def M_def K_def noBranchCompareUint64s_def)
  have h4: "sized (heap store0 ! 0)" and h5: "sized (heap store0 ! 1)"
    by (simp_all add: store0_def sized_def)
  have v: "(heap store0)[0 := (heap store0 ! 0)
             \<lparr>bits := map2 (OR) (bits (heap store0 ! 0)) (bits (heap store0 ! 1))\<rparr>]
           = [\<lparr>bits = [32], keys = [1], m = 64, n = 0\<rparr>,
              \<lparr>bits = [32], keys = [1], m = 64, n = 3\<rparr>]"
    by (simp add: store0_def)
  show ?thesis
    using h1 h2 h3 h4 h5 v C4_UnionInPlace [OF h1 h2 h3 h4 h5] by simp
qed

theorem C3_Union_witness:
  "0 < length (heap store0) \<and> 1 < length (heap store0)
   \<and> isCompatible (heap store0 ! 0) (heap store0 ! 1) = Inr True
   \<and> sized (heap store0 ! 0) \<and> sized (heap store0 ! 1)
   \<and> constructible 2 1 (heap store0 ! 0)
   \<and> fst (UnionF 2 1 0 1 store0) = Inr 2
   \<and> heap (snd (UnionF 2 1 0 1 store0))
       = [\<lparr>bits = [0], keys = [1], m = 64, n = 0\<rparr>,
          \<lparr>bits = [32], keys = [1], m = 64, n = 3\<rparr>,
          \<lparr>bits = [32], keys = [1], m = 64, n = 0\<rparr>]"
proof -
  have h1: "0 < length (heap store0)" and h2: "1 < length (heap store0)"
    by (simp_all add: store0_def)
  have h3: "isCompatible (heap store0 ! 0) (heap store0 ! 1) = Inr True"
    by (simp add: store0_def isCompatible_def M_def K_def noBranchCompareUint64s_def)
  have h4: "sized (heap store0 ! 0)" and h5: "sized (heap store0 ! 1)"
    by (simp_all add: store0_def sized_def)
  have h6: "constructible 2 1 (heap store0 ! 0)"
    by (simp add: store0_def constructible_def)
  have v: "heap store0 @ [\<lparr>bits = map2 (OR) (bits (heap store0 ! 0)) (bits (heap store0 ! 1)),
                           keys = keys (heap store0 ! 0), m = m (heap store0 ! 0), n = 0\<rparr>]
           = [\<lparr>bits = [0], keys = [1], m = 64, n = 0\<rparr>,
              \<lparr>bits = [32], keys = [1], m = 64, n = 3\<rparr>,
              \<lparr>bits = [32], keys = [1], m = 64, n = 0\<rparr>]"
    and l: "length (heap store0) = 2"
    by (simp_all add: store0_def)
  show ?thesis
    using h1 h2 h3 h4 h5 h6 v l C3_Union [OF h1 h2 h3 h4 h5 h6] by simp
qed

theorem C10_no_bit_cleared_witness:
  "no_bit_cleared store0 (snd (Add 0 5 store0))
   \<and> no_bit_cleared store0 (snd (AddC 0 5 store0))
   \<and> no_bit_cleared store0 (snd (Contains 0 5 store0))
   \<and> no_bit_cleared store0 (snd (UnionInPlace 0 1 store0))"
  by (rule C10_no_bit_cleared)

section \<open>The false-positive probability\<close>

text \<open>
  Claim C2: \<open>FalsePositiveProbability\<close> returns \<open>(1 - e^(-k(n+0.5)/(m-1)))^k\<close> for the
  filter's current \<open>k\<close>, \<open>n\<close>, \<open>m\<close>. The source applies \<open>math.Exp\<close> to \<open>-k\<close> alone and
  multiplies the result by \<open>(n+0.5)/(m-1)\<close>. On the filter with one key, \<open>m = 3\<close> and
  \<open>n = 0\<close> the function returns \<open>1 - e^(-1)/4\<close>, above \<open>3/4\<close>, where the formula of the
  claim gives \<open>1 - e^(-1/4)\<close>, at most \<open>1/4\<close>.
\<close>

theorem C2_FalsePosititveProbability_differs:
  "3 / 4 < FalsePosititveProbability \<lparr>bits = [0], keys = [1], m = 3, n = 0\<rparr>
   \<and> FalsePositiveProbability_spec
        (K \<lparr>bits = [0], keys = [1], m = 3, n = 0\<rparr>)
        (unat (N \<lparr>bits = [0], keys = [1], m = 3, n = 0\<rparr>))
        (unat (M \<lparr>bits = [0], keys = [1], m = 3, n = 0\<rparr>)) \<le> 1 / 4"
proof -
  have below: "exp (- 1 :: real) < 1"
    by simp
  have above: "1 + (- (1 / 4) :: real) \<le> exp (- (1 / 4))"
    by (rule exp_ge_add_one_self)
  show ?thesis
    using below above
    by (simp add: FalsePosititveProbability_def FalsePositiveProbability_spec_def
        K_def N_def M_def)
qed

section \<open>Incompatible filters\<close>

lemma fmt_d_not_empty: "fmt_d x \<noteq> []"
  by (subst fmt_d.simps) simp

lemma noBranchCompareUint64s_prefix:
  assumes "length b0 \<le> length b1"
  shows "\<exists>r. noBranchCompareUint64s b0 b1 = Inr r \<and> (r = 0 \<longleftrightarrow> b0 = take (length b0) b1)"
proof -
  obtain r where l: "noBranchCompare_loop 0 0 b0 b1 = Inr r"
    and z: "r = 0 \<longleftrightarrow> (0::u64) = 0 \<and> (\<forall>j<length b0. b0 ! j = b1 ! (0 + j))"
    using noBranchCompare_loop_ok [of 0 b0 b1 0] assms by auto
  have "r = 0 \<longleftrightarrow> b0 = take (length b0) b1"
    using z assms by (auto simp add: list_eq_iff_nth_eq)
  then show ?thesis
    using l by (simp add: noBranchCompareUint64s_def)
qed

text \<open>
  Where \<open>f\<close> has no more keys than \<open>f2\<close>, \<open>verifyCompatible\<close> on incompatible filters
  returns the error, with an entry for the size exactly when the sizes differ, one
  for the key count exactly when the counts differ, and one for the keys exactly
  when the keys of \<open>f\<close> differ from the first keys of \<open>f2\<close>.
\<close>

lemma verifyCompatible_body_incompatible:
  assumes "length (keys f) \<le> length (keys f2)" and "isCompatible f f2 = Inr False"
  shows "\<exists>e0 e1 e2. verifyCompatible_body f f2 = Inl (ErrIncompatible [e0, e1, e2])
           \<and> (e0 \<noteq> [] \<longleftrightarrow> m f \<noteq> m f2)
           \<and> (e1 \<noteq> [] \<longleftrightarrow> K f \<noteq> K f2)
           \<and> (e2 \<noteq> [] \<longleftrightarrow> keys f \<noteq> take (length (keys f)) (keys f2))"
proof -
  obtain r where c: "noBranchCompareUint64s (keys f) (keys f2) = Inr r"
    and z: "r = 0 \<longleftrightarrow> keys f = take (length (keys f)) (keys f2)"
    using noBranchCompareUint64s_prefix [OF assms(1)] by blast
  show ?thesis
    using assms(2) c z
    by (simp add: verifyCompatible_body_def errIncompatibleBloomFilters_def M_def Let_def
        fmt_d_not_empty)
qed

lemma verifyCompatible_incompatible:
  assumes "a < length (heap s)" and "b < length (heap s)"
    and "length (keys (heap s ! a)) \<le> length (keys (heap s ! b))"
    and "isCompatible (heap s ! a) (heap s ! b) = Inr False"
  shows "\<exists>e. fst (verifyCompatible a b s) = Inl (ErrIncompatible e)
           \<and> fst (UnionInPlace a b s) = Inl (ErrIncompatible e)
           \<and> fst (UnionF MMin KMin a b s) = Inl (ErrIncompatible e)
           \<and> heap (snd (UnionInPlace a b s)) = heap s
           \<and> heap (snd (UnionF MMin KMin a b s)) = heap s"
proof -
  obtain e where "verifyCompatible_body (heap s ! a) (heap s ! b) = Inl (ErrIncompatible e)"
    using verifyCompatible_body_incompatible [OF assms(3,4)] by blast
  then show ?thesis
    using assms(1,2)
    by (simp add: verifyCompatible_def UnionInPlace_def UnionF_def with_rlock_def)
qed

text \<open>
  Claim C5: on incompatible filters \<open>Union\<close> and \<open>UnionInPlace\<close> return an Incompatible
  error. When \<open>f\<close> has more keys than \<open>f2\<close> they do not: \<open>verifyCompatible\<close> calls
  \<open>noBranchCompareUint64s(f.keys, f2.keys)\<close> after \<open>isCompatible\<close> has failed on the
  key counts, and the read of \<open>b1[i]\<close> panics. In \<open>store1\<close> the filter \<open>f\<close> has the
  keys \<open>[1, 2]\<close> and \<open>f2\<close> the key \<open>[1]\<close>, both with \<open>m = 64\<close>: \<open>isCompatible\<close> is false,
  the three functions panic, and the filters are left as they were. The thresholds 2
  and 1 given to \<open>Union\<close> are never consulted.
\<close>

theorem C5_more_keys_panics:
  "isCompatible (heap store1 ! 0) (heap store1 ! 1) = Inr False
   \<and> fst (verifyCompatible 0 1 store1) = Inl PanicIndexOutOfRange
   \<and> fst (UnionInPlace 0 1 store1) = Inl PanicIndexOutOfRange
   \<and> fst (UnionF 2 1 0 1 store1) = Inl PanicIndexOutOfRange
   \<and> heap (snd (UnionInPlace 0 1 store1)) = heap store1
   \<and> heap (snd (UnionF 2 1 0 1 store1)) = heap store1"
  by (simp add: store1_def UnionInPlace_def UnionF_def verifyCompatible_def with_rlock_def
      emit_def verifyCompatible_body_def isCompatible_def M_def K_def
      noBranchCompareUint64s_def)

end
